theory Spec2Isabelle
  imports Main "HOL-Library.Word"
begin

unbundle bit_operations_syntax

section \<open>The Simon Says game of Core/Src/main.cpp\<close>

text \<open>
  The game is one polling loop (\<open>while (1) { switch (state) ... }\<close>) over the globals
  \<open>sequence\<close>, \<open>current_level\<close>, \<open>generator\<close> and the local \<open>state\<close>. The model
  below has one function per loop of the source and one function \<open>step\<close> for the body
  of the outer loop. The hardware is a record \<open>world\<close>: the pin levels the coming reads
  will see, the output register of port A, and a log of every HAL call made so far.

  Loop counters that start at 0 and count up and the unsigned indices (\<open>int i\<close>,
  \<open>uint8_t\<close>, \<open>uint32_t\<close> in the source) are \<open>nat\<close>. The scan result \<open>int8_t index\<close>, which
  can be -1, is \<open>int\<close>, and the arrays it indexes are read with that signed index. The two places where the
  C++ types could change a value are written out: \<open>++current_level\<close> wraps at 256 and
  \<open>static_cast<uint32_t>(index)\<close> reduces modulo \<open>2^32\<close>. The port registers are
  16-bit words, as the pin masks are combined bitwise.
\<close>

subsection \<open>Constants\<close>

type_synonym u16 = "16 word"

definition MAX_LEVEL :: nat where
  "MAX_LEVEL = 5"

definition GAME_SPEED_MS :: nat where
  "GAME_SPEED_MS = 500"

definition ERROR_BLINK_MS :: nat where
  "ERROR_BLINK_MS = 200"

definition WIN_ANIMATION_MS :: nat where
  "WIN_ANIMATION_MS = 100"

definition BUTTON_COUNT :: nat where
  "BUTTON_COUNT = 4"

definition LED_COUNT :: nat where
  "LED_COUNT = 4"

text \<open>
  The pin masks come from the HAL header \<open>stm32f4xx_hal_gpio.h\<close> and the Start pin from
  \<open>main.h\<close>; neither is among the sources. The masks are the HAL's one-bit-per-pin
  values, the Start pin is PA0 as in the README's pinout table.
\<close>

definition GPIO_PIN_0 :: u16 where
  "GPIO_PIN_0 = 0x0001"

definition GPIO_PIN_3 :: u16 where
  "GPIO_PIN_3 = 0x0008"

definition GPIO_PIN_4 :: u16 where
  "GPIO_PIN_4 = 0x0010"

definition GPIO_PIN_5 :: u16 where
  "GPIO_PIN_5 = 0x0020"

definition GPIO_PIN_6 :: u16 where
  "GPIO_PIN_6 = 0x0040"

datatype GPIO_Port = GPIOA | GPIOB

datatype GPIO_PinState = GPIO_PIN_RESET | GPIO_PIN_SET

definition START_GPIO_Port :: GPIO_Port where
  "START_GPIO_Port = GPIOA"

definition START_Pin :: u16 where
  "START_Pin = GPIO_PIN_0"

definition led_pins :: "u16 list" where
  "led_pins = [GPIO_PIN_3, GPIO_PIN_4, GPIO_PIN_5, GPIO_PIN_6]"

definition button_pins :: "u16 list" where
  "button_pins = [GPIO_PIN_3, GPIO_PIN_4, GPIO_PIN_5, GPIO_PIN_6]"

datatype GameState = IDLE | SIMON_SAYS | PLAYER_SAYS | GAME_OVER | WIN

subsection \<open>The hardware\<close>

text \<open>
  One \<open>sample\<close> is what one call of \<open>HAL_GPIO_ReadPin\<close> finds: the input data registers
  of both ports and the millisecond tick (a \<open>uint32_t\<close>) at that moment. Every read
  takes the next sample, so the pins may change between any two reads.
\<close>

record sample =
  uptime :: nat
  gpioa_idr :: u16
  gpiob_idr :: u16

datatype event =
    ReadPin GPIO_Port u16 GPIO_PinState
  | WritePin GPIO_Port u16 GPIO_PinState
  | TogglePin GPIO_Port u16
  | Delay nat

text \<open>
  \<open>inputs\<close> are the samples not read yet, \<open>now\<close> is the tick of the last sample read,
  \<open>gpioa_odr\<close> is the output data register that drives the LEDs, \<open>odr_hist\<close> lists
  every value that register has taken, and \<open>events\<close> is the log of HAL calls, oldest
  first. Port B is input only; its output register is not modelled.
\<close>

record world =
  inputs :: "sample list"
  now :: nat
  gpioa_odr :: u16
  odr_hist :: "u16 list"
  events :: "event list"

text \<open>
  A function that polls returns \<open>Done\<close> with its value, or \<open>Waiting\<close> when the samples
  ran out while it was still polling (the busy-wait has not ended within the recorded
  inputs). \<open>Fault\<close> is an array index out of range.
\<close>

datatype 'a outcome = Done 'a world | Waiting world | Fault

definition array_get :: "'a list \<Rightarrow> nat \<Rightarrow> 'a option" where
  "array_get xs i = (if i < length xs then Some (xs ! i) else None)"

definition array_set :: "'a list \<Rightarrow> nat \<Rightarrow> 'a \<Rightarrow> 'a list option" where
  "array_set xs i v = (if i < length xs then Some (xs[i := v]) else None)"

text \<open>
  \<open>array_at\<close> is the access with a signed index, as \<open>led_pins[index]\<close> and
  \<open>button_pins[index]\<close> with \<open>int8_t index\<close> in \<open>PLAYER_SAYS\<close>: a negative index is out
  of range too.
\<close>

definition array_at :: "'a list \<Rightarrow> int \<Rightarrow> 'a option" where
  "array_at xs i = (if 0 \<le> i \<and> i < int (length xs) then Some (xs ! nat i) else None)"

definition port_idr :: "GPIO_Port \<Rightarrow> sample \<Rightarrow> u16" where
  "port_idr port s = (case port of GPIOA \<Rightarrow> gpioa_idr s | GPIOB \<Rightarrow> gpiob_idr s)"

definition pin_level :: "u16 \<Rightarrow> u16 \<Rightarrow> GPIO_PinState" where
  "pin_level idr pin = (if idr AND pin = 0 then GPIO_PIN_RESET else GPIO_PIN_SET)"

text \<open>\<open>after_read\<close> is the world after one read has taken the sample \<open>s\<close>.\<close>

definition after_read :: "GPIO_Port \<Rightarrow> u16 \<Rightarrow> sample \<Rightarrow> world \<Rightarrow> world" where
  "after_read port pin s w =
     w\<lparr>inputs := tl (inputs w), now := uptime s,
       events := events w @ [ReadPin port pin (pin_level (port_idr port s) pin)]\<rparr>"

definition HAL_GPIO_ReadPin :: "GPIO_Port \<Rightarrow> u16 \<Rightarrow> world \<Rightarrow> GPIO_PinState outcome" where
  "HAL_GPIO_ReadPin port pin w =
     (case inputs w of
        [] \<Rightarrow> Waiting w
      | s # rest \<Rightarrow> Done (pin_level (port_idr port s) pin) (after_read port pin s w))"

definition set_odr :: "GPIO_Port \<Rightarrow> u16 \<Rightarrow> world \<Rightarrow> world" where
  "set_odr port v w =
     (if port = GPIOA then w\<lparr>gpioa_odr := v, odr_hist := odr_hist w @ [v]\<rparr> else w)"

definition HAL_GPIO_WritePin :: "GPIO_Port \<Rightarrow> u16 \<Rightarrow> GPIO_PinState \<Rightarrow> world \<Rightarrow> world" where
  "HAL_GPIO_WritePin port pin st w =
     (set_odr port
        (if st = GPIO_PIN_SET then gpioa_odr w OR pin else gpioa_odr w AND NOT pin) w)
       \<lparr>events := events w @ [WritePin port pin st]\<rparr>"

definition HAL_GPIO_TogglePin :: "GPIO_Port \<Rightarrow> u16 \<Rightarrow> world \<Rightarrow> world" where
  "HAL_GPIO_TogglePin port pin w =
     (set_odr port (gpioa_odr w XOR pin) w)\<lparr>events := events w @ [TogglePin port pin]\<rparr>"

definition HAL_Delay :: "nat \<Rightarrow> world \<Rightarrow> world" where
  "HAL_Delay ms w = w\<lparr>events := events w @ [Delay ms]\<rparr>"

definition HAL_GetTick :: "world \<Rightarrow> nat" where
  "HAL_GetTick w = now w"

subsection \<open>The random source\<close>

text \<open>
  Modelled from the spec: \<open>std::mt19937\<close> and \<open>std::uniform_int_distribution\<close> are the
  C++ standard library's, not among the sources. The spec's contract is
  \<open>Seed(value)\<close>, which re-initialises the generator deterministically from the value,
  and \<open>Next()\<close>, which returns one value of \<open>{0, ..., N-1}\<close> and advances the internal
  state. The engine's raw 32-bit words are a parameter \<open>eng\<close> (seed and position to
  word); the state is the seed and the number of words drawn. \<open>distrib\<close> is constructed
  in the source with the bounds 0 and 3 and maps a raw word into them.
\<close>

type_synonym engine = "nat \<Rightarrow> nat \<Rightarrow> nat"

record mt19937 =
  seeded :: nat
  drawn :: nat

definition default_seed :: nat where
  "default_seed = 5489"

definition generator_seed :: "nat \<Rightarrow> mt19937" where
  "generator_seed v = \<lparr>seeded = v, drawn = 0\<rparr>"

definition distrib_a :: nat where
  "distrib_a = 0"

definition distrib_b :: nat where
  "distrib_b = 3"

definition distrib :: "engine \<Rightarrow> mt19937 \<Rightarrow> nat \<times> mt19937" where
  "distrib eng gen =
     (distrib_a + eng (seeded gen) (drawn gen) mod (distrib_b - distrib_a + 1),
      gen\<lparr>drawn := drawn gen + 1\<rparr>)"

subsection \<open>The game\<close>

record game =
  state :: GameState
  sequence :: "nat list"
  current_level :: nat
  generator :: mt19937

text \<open>The globals are zero-initialised; \<open>state\<close> starts as \<open>IDLE\<close>.\<close>

definition main_init :: game where
  "main_init = \<lparr>state = IDLE, sequence = replicate MAX_LEVEL 0, current_level = 0,
                 generator = generator_seed default_seed\<rparr>"

text \<open>After \<open>MX_GPIO_Init\<close>: the LED pins are reset and nothing has been logged.\<close>

definition init_world :: "sample list \<Rightarrow> world" where
  "init_world ss = \<lparr>inputs = ss, now = 0, gpioa_odr = 0, odr_hist = [0], events = []\<rparr>"

text \<open>\<open>GetPressedButtonIndex\<close>: the loop from index \<open>i\<close> on.\<close>

function scan_buttons :: "nat \<Rightarrow> world \<Rightarrow> int outcome" where
  "scan_buttons i w =
     (if i < BUTTON_COUNT then
        (case array_get button_pins i of
           None \<Rightarrow> Fault
         | Some pin \<Rightarrow>
             (case HAL_GPIO_ReadPin GPIOB pin w of
                Done v w' \<Rightarrow>
                  if v = GPIO_PIN_RESET then Done (int i) w' else scan_buttons (i + 1) w'
              | Waiting w' \<Rightarrow> Waiting w'
              | Fault \<Rightarrow> Fault))
      else Done (- 1) w)"
  by pat_completeness auto
termination
  by (relation "measure (\<lambda>(i, w). BUTTON_COUNT - i)") auto

declare scan_buttons.simps [simp del]

definition GetPressedButtonIndex :: "world \<Rightarrow> int outcome" where
  "GetPressedButtonIndex w = scan_buttons 0 w"

lemma after_read_fields [simp]:
  "inputs (after_read port pin s w) = tl (inputs w)"
  "now (after_read port pin s w) = uptime s"
  "gpioa_odr (after_read port pin s w) = gpioa_odr w"
  "odr_hist (after_read port pin s w) = odr_hist w"
  "events (after_read port pin s w) =
     events w @ [ReadPin port pin (pin_level (port_idr port s) pin)]"
  by (simp_all add: after_read_def)

lemma ReadPin_Done:
  "HAL_GPIO_ReadPin port pin w = Done v w' \<Longrightarrow>
     \<exists>s rest. inputs w = s # rest \<and> v = pin_level (port_idr port s) pin \<and>
       w' = after_read port pin s w"
  by (auto simp: HAL_GPIO_ReadPin_def split: list.splits)

lemma ReadPin_Waiting:
  "HAL_GPIO_ReadPin port pin w = Waiting w' \<Longrightarrow> w' = w \<and> inputs w = []"
  by (auto simp: HAL_GPIO_ReadPin_def Let_def split: list.splits)

lemma ReadPin_not_Fault: "HAL_GPIO_ReadPin port pin w \<noteq> Fault"
  by (auto simp: HAL_GPIO_ReadPin_def Let_def split: list.splits)

lemma ReadPin_shorter:
  "HAL_GPIO_ReadPin port pin w = Done v w' \<Longrightarrow> length (inputs w') < length (inputs w)"
  by (auto simp: HAL_GPIO_ReadPin_def split: list.splits)

text \<open>The empty loop \<open>while (HAL_GPIO_ReadPin(GPIOB, button_pins[index]) == 0) {}\<close>.\<close>

function wait_release :: "u16 \<Rightarrow> world \<Rightarrow> unit outcome" where
  "wait_release pin w =
     (case HAL_GPIO_ReadPin GPIOB pin w of
        Done v w' \<Rightarrow> if v = GPIO_PIN_RESET then wait_release pin w' else Done () w'
      | Waiting w' \<Rightarrow> Waiting w'
      | Fault \<Rightarrow> Fault)"
  by pat_completeness auto
termination
  by (relation "measure (\<lambda>(pin, w). length (inputs w))") (auto dest: ReadPin_shorter)

declare wait_release.simps [simp del]

lemma scan_buttons_shorter:
  "scan_buttons i w = Done r w' \<Longrightarrow> i < BUTTON_COUNT \<Longrightarrow>
     length (inputs w') < length (inputs w)"
proof (induction i w rule: scan_buttons.induct)
  case (1 i w)
  from "1.prems" obtain pin where pin: "array_get button_pins i = Some pin"
    by (subst (asm) scan_buttons.simps) (auto split: option.splits)
  from "1.prems" pin obtain v w1 where rd: "HAL_GPIO_ReadPin GPIOB pin w = Done v w1"
    by (subst (asm) scan_buttons.simps) (auto split: outcome.splits)
  show ?case
  proof (cases "v = GPIO_PIN_RESET")
    case True
    with "1.prems" pin rd have "w' = w1"
      by (subst (asm) scan_buttons.simps) auto
    with rd show ?thesis by (auto dest: ReadPin_shorter)
  next
    case False
    with "1.prems" pin rd have next_scan: "scan_buttons (i + 1) w1 = Done r w'"
      by (subst (asm) scan_buttons.simps) auto
    show ?thesis
    proof (cases "i + 1 < BUTTON_COUNT")
      case True
      with "1.IH" [OF "1.prems"(2) pin rd False next_scan] rd show ?thesis
        by (auto dest: ReadPin_shorter)
    next
      case False
      with next_scan have "w' = w1"
        by (subst (asm) scan_buttons.simps) auto
      with rd show ?thesis by (auto dest: ReadPin_shorter)
    qed
  qed
qed

text \<open>
  The loop \<open>while (!flag)\<close> for position \<open>i\<close> of the round. It ends with \<open>flag\<close> set
  (the game comes back unchanged) or through \<open>state = GAME_OVER; break\<close>.
\<close>

function await_input :: "game \<Rightarrow> nat \<Rightarrow> world \<Rightarrow> game outcome" where
  "await_input g i w =
     (case GetPressedButtonIndex w of
        Fault \<Rightarrow> Fault
      | Waiting w1 \<Rightarrow> Waiting w1
      | Done index w1 \<Rightarrow>
          if index \<ge> 0 then
            (case array_at led_pins index of
               None \<Rightarrow> Fault
             | Some led \<Rightarrow>
                 (case array_at button_pins index of
                    None \<Rightarrow> Fault
                  | Some button \<Rightarrow>
                      (case wait_release button
                              (HAL_Delay GAME_SPEED_MS
                                 (HAL_GPIO_WritePin GPIOA led GPIO_PIN_SET w1)) of
                         Fault \<Rightarrow> Fault
                       | Waiting w2 \<Rightarrow> Waiting w2
                       | Done u w2 \<Rightarrow>
                           (let w3 = HAL_Delay GAME_SPEED_MS
                                       (HAL_GPIO_WritePin GPIOA led GPIO_PIN_RESET w2)
                            in case array_get (sequence g) i of
                                 None \<Rightarrow> Fault
                               | Some expected \<Rightarrow>
                                   if nat (index mod 2 ^ 32) = expected then Done g w3
                                   else Done (g\<lparr>state := GAME_OVER\<rparr>) w3))))
          else await_input g i w1)"
  by pat_completeness auto
termination
proof (relation "measure (\<lambda>(g, i, w). length (inputs w))")
  fix g :: game and i :: nat and w w1 :: world and index :: int
  assume "GetPressedButtonIndex w = Done index w1"
  then have "length (inputs w1) < length (inputs w)"
    using scan_buttons_shorter [of 0 w index w1]
    by (simp add: GetPressedButtonIndex_def BUTTON_COUNT_def)
  then show "((g, i, w1), (g, i, w)) \<in> measure (\<lambda>(g, i, w). length (inputs w))"
    by simp
qed simp

declare await_input.simps [simp del]

lemma await_input_game:
  "await_input g i w = Done g' w' \<Longrightarrow> g' = g \<or> g' = g\<lparr>state := GAME_OVER\<rparr>"
proof (induction g i w rule: await_input.induct)
  case (1 g i w)
  from "1.prems" obtain index w1 where scan: "GetPressedButtonIndex w = Done index w1"
    by (subst (asm) await_input.simps) (auto split: outcome.splits)
  show ?case
  proof (cases "index \<ge> 0")
    case True
    with "1.prems" scan show ?thesis
      by (subst (asm) await_input.simps)
         (auto simp: Let_def split: option.splits outcome.splits if_splits)
  next
    case False
    with "1.prems" scan have "await_input g i w1 = Done g' w'"
      by (subst (asm) await_input.simps) auto
    with "1.IH" [OF scan False] show ?thesis .
  qed
qed

lemma await_input_level:
  "await_input g i w = Done g' w' \<Longrightarrow> current_level g' = current_level g"
  by (auto dest: await_input_game)

text \<open>The loop \<open>for (int i = 0; i <= current_level; ++i)\<close> of \<open>PLAYER_SAYS\<close>, from \<open>i\<close> on.\<close>

function player_says_loop :: "nat \<Rightarrow> game \<Rightarrow> world \<Rightarrow> game outcome" where
  "player_says_loop i g w =
     (if i \<le> current_level g then
        (case await_input g i w of
           Fault \<Rightarrow> Fault
         | Waiting w' \<Rightarrow> Waiting w'
         | Done g' w' \<Rightarrow>
             if state g' \<noteq> PLAYER_SAYS then Done g' w'
             else player_says_loop (i + 1) g' w')
      else Done g w)"
  by pat_completeness auto
termination
  by (relation "measure (\<lambda>(i, g, w). Suc (current_level g) - i)")
     (auto dest: await_input_level)

declare player_says_loop.simps [simp del]

text \<open>The loop \<open>for (int i = 0; i <= current_level; ++i)\<close> of \<open>SIMON_SAYS\<close>, from \<open>i\<close> on.\<close>

function simon_says_loop :: "nat \<Rightarrow> game \<Rightarrow> world \<Rightarrow> game outcome" where
  "simon_says_loop i g w =
     (if i \<le> current_level g then
        (case array_get (sequence g) i of
           None \<Rightarrow> Fault
         | Some s \<Rightarrow>
             (case array_get led_pins s of
                None \<Rightarrow> Fault
              | Some led \<Rightarrow>
                  simon_says_loop (i + 1) (g\<lparr>state := PLAYER_SAYS\<rparr>)
                    (HAL_Delay GAME_SPEED_MS
                       (HAL_GPIO_WritePin GPIOA led GPIO_PIN_RESET
                          (HAL_Delay GAME_SPEED_MS
                             (HAL_GPIO_WritePin GPIOA led GPIO_PIN_SET w))))))
      else Done g w)"
  by pat_completeness auto
termination
  by (relation "measure (\<lambda>(i, g, w). Suc (current_level g) - i)") auto

declare simon_says_loop.simps [simp del]

text \<open>\<open>ToggleLEDsForGameOver\<close>: the loop from \<open>i\<close> on, all in-range constant indices.\<close>

function toggle_loop :: "nat \<Rightarrow> world \<Rightarrow> world" where
  "toggle_loop i w =
     (if i < 4 then
        toggle_loop (i + 1)
          (HAL_Delay ERROR_BLINK_MS
             (HAL_GPIO_TogglePin GPIOA
                (led_pins ! 0 OR led_pins ! 1 OR led_pins ! 2 OR led_pins ! 3) w))
      else w)"
  by pat_completeness auto
termination
  by (relation "measure (\<lambda>(i, w). 4 - i)") auto

declare toggle_loop.simps [simp del]

definition ToggleLEDsForGameOver :: "world \<Rightarrow> world" where
  "ToggleLEDsForGameOver w = toggle_loop 0 w"

text \<open>\<open>RunningLightForWin\<close>: the inner loop over \<open>i\<close> and the outer loop over \<open>j\<close>.\<close>

function running_inner :: "nat \<Rightarrow> world \<Rightarrow> unit outcome" where
  "running_inner i w =
     (if i < LED_COUNT then
        (case array_get led_pins i of
           None \<Rightarrow> Fault
         | Some led \<Rightarrow>
             running_inner (i + 1)
               (HAL_GPIO_WritePin GPIOA led GPIO_PIN_RESET
                  (HAL_Delay WIN_ANIMATION_MS
                     (HAL_GPIO_WritePin GPIOA led GPIO_PIN_SET w))))
      else Done () w)"
  by pat_completeness auto
termination
  by (relation "measure (\<lambda>(i, w). LED_COUNT - i)") auto

declare running_inner.simps [simp del]

function running_outer :: "nat \<Rightarrow> world \<Rightarrow> unit outcome" where
  "running_outer j w =
     (if j < 4 then
        (case running_inner 0 w of
           Done u w' \<Rightarrow> running_outer (j + 1) w'
         | Waiting w' \<Rightarrow> Waiting w'
         | Fault \<Rightarrow> Fault)
      else Done () w)"
  by pat_completeness auto
termination
  by (relation "measure (\<lambda>(j, w). 4 - j)") auto

declare running_outer.simps [simp del]

definition RunningLightForWin :: "world \<Rightarrow> unit outcome" where
  "RunningLightForWin w = running_outer 0 w"

text \<open>
  One pass through the body of \<open>while (1)\<close>: the \<open>switch\<close> on \<open>state\<close>, one case per
  handler.
\<close>

definition step :: "engine \<Rightarrow> game \<Rightarrow> world \<Rightarrow> game outcome" where
  "step eng g w =
     (case state g of
        IDLE \<Rightarrow>
          (case HAL_GPIO_ReadPin START_GPIO_Port START_Pin w of
             Fault \<Rightarrow> Fault
           | Waiting w' \<Rightarrow> Waiting w'
           | Done v w' \<Rightarrow>
               if v = GPIO_PIN_RESET then
                 Done (g\<lparr>generator := generator_seed (HAL_GetTick w'),
                          current_level := 0, state := SIMON_SAYS\<rparr>) w'
               else Done g w')
      | SIMON_SAYS \<Rightarrow>
          (case distrib eng (generator g) of
             (v, gen') \<Rightarrow>
               (case array_set (sequence g) (current_level g) v of
                  None \<Rightarrow> Fault
                | Some seq' \<Rightarrow>
                    simon_says_loop 0 (g\<lparr>generator := gen', sequence := seq'\<rparr>) w))
      | PLAYER_SAYS \<Rightarrow>
          (case player_says_loop 0 g w of
             Fault \<Rightarrow> Fault
           | Waiting w' \<Rightarrow> Waiting w'
           | Done g' w' \<Rightarrow>
               if state g' = PLAYER_SAYS then
                 (if current_level g' = MAX_LEVEL - 1 then Done (g'\<lparr>state := WIN\<rparr>) w'
                  else Done (g'\<lparr>current_level := (current_level g' + 1) mod 256,
                                 state := SIMON_SAYS\<rparr>) w')
               else Done g' w')
      | GAME_OVER \<Rightarrow> Done (g\<lparr>state := IDLE\<rparr>) (ToggleLEDsForGameOver w)
      | WIN \<Rightarrow>
          (case RunningLightForWin w of
             Fault \<Rightarrow> Fault
           | Waiting w' \<Rightarrow> Waiting w'
           | Done u w' \<Rightarrow> Done (g\<lparr>state := IDLE\<rparr>) w'))"

text \<open>\<open>n\<close> passes through the body of \<open>while (1)\<close>.\<close>

fun run :: "engine \<Rightarrow> nat \<Rightarrow> game \<Rightarrow> world \<Rightarrow> game outcome" where
  "run eng 0 g w = Done g w"
| "run eng (Suc n) g w =
     (case step eng g w of
        Fault \<Rightarrow> Fault
      | Waiting w' \<Rightarrow> Waiting w'
      | Done g' w' \<Rightarrow> run eng n g' w')"

section \<open>Properties\<close>

subsection \<open>The button scan\<close>

text \<open>
  Button \<open>i\<close> is active in a sample when its pin reads 0 (the buttons pull the pin to
  ground).
\<close>

definition button_active :: "sample \<Rightarrow> nat \<Rightarrow> bool" where
  "button_active s i = (pin_level (gpiob_idr s) (button_pins ! i) = GPIO_PIN_RESET)"

lemma scan_buttons_Cons:
  assumes "inputs w = s # rest" "i < BUTTON_COUNT"
  shows "scan_buttons i w =
           (if button_active s i then Done (int i) (after_read GPIOB (button_pins ! i) s w)
            else scan_buttons (Suc i) (after_read GPIOB (button_pins ! i) s w))"
  using assms
  by (subst scan_buttons.simps)
     (simp add: array_get_def button_pins_def BUTTON_COUNT_def HAL_GPIO_ReadPin_def
        button_active_def after_read_def port_idr_def Let_def)

lemma scan_buttons_end: "scan_buttons BUTTON_COUNT w = Done (- 1) w"
  by (subst scan_buttons.simps) simp

lemma scan_four:
  assumes "inputs w = a # b # c # d # rest"
  shows "GetPressedButtonIndex w =
           (let w1 = after_read GPIOB (button_pins ! 0) a w;
                w2 = after_read GPIOB (button_pins ! 1) b w1;
                w3 = after_read GPIOB (button_pins ! 2) c w2;
                w4 = after_read GPIOB (button_pins ! 3) d w3
            in if button_active a 0 then Done 0 w1 else if button_active b 1 then Done 1 w2
               else if button_active c 2 then Done 2 w3
               else if button_active d 3 then Done 3 w4 else Done (- 1) w4)"
proof -
  let ?w1 = "after_read GPIOB (button_pins ! 0) a w"
  let ?w2 = "after_read GPIOB (button_pins ! 1) b ?w1"
  let ?w3 = "after_read GPIOB (button_pins ! 2) c ?w2"
  let ?w4 = "after_read GPIOB (button_pins ! 3) d ?w3"
  have s0: "scan_buttons 0 w = (if button_active a 0 then Done 0 ?w1 else scan_buttons 1 ?w1)"
    using scan_buttons_Cons [of w a _ 0] assms by (simp add: BUTTON_COUNT_def)
  have s1: "scan_buttons 1 ?w1 = (if button_active b 1 then Done 1 ?w2 else scan_buttons 2 ?w2)"
    using scan_buttons_Cons [of ?w1 b _ 1] assms
    by (simp add: BUTTON_COUNT_def after_read_def numeral_2_eq_2)
  have s2: "scan_buttons 2 ?w2 = (if button_active c 2 then Done 2 ?w3 else scan_buttons 3 ?w3)"
    using scan_buttons_Cons [of ?w2 c _ 2] assms
    by (simp add: BUTTON_COUNT_def after_read_def numeral_3_eq_3 numeral_2_eq_2)
  have s3: "scan_buttons 3 ?w3 = (if button_active d 3 then Done 3 ?w4 else scan_buttons 4 ?w4)"
    using scan_buttons_Cons [of ?w3 d _ 3] assms
    by (simp add: BUTTON_COUNT_def after_read_def)
  have s4: "scan_buttons 4 ?w4 = Done (- 1) ?w4"
    using scan_buttons_end [of ?w4] by (simp add: BUTTON_COUNT_def)
  show ?thesis
    unfolding GetPressedButtonIndex_def s0 s1 s2 s3 s4 Let_def by simp
qed

lemma four_samples:
  assumes "BUTTON_COUNT \<le> length xs"
  obtains a b c d rest where "xs = a # b # c # d # rest"
  using assms by (auto simp: BUTTON_COUNT_def numeral_eq_Suc Suc_le_length_iff)

text \<open>
  C7. The scan reads the buttons in ascending index order, one read each, and stops at
  the first read that finds its button active: the result \<open>r\<close> is an index whose read
  found the button active while every read before it found its button inactive, and
  it is -1 when no read found one. The reads are logged in index order from 0. When
  the pins hold still during the scan (the four samples are equal) and several
  buttons are active, \<open>r\<close> is therefore the smallest active index.
\<close>

theorem GetPressedButtonIndex_first_active:
  assumes "BUTTON_COUNT \<le> length (inputs w)"
  shows "\<exists>r w'. GetPressedButtonIndex w = Done r w' \<and>
           (if \<exists>i<BUTTON_COUNT. button_active (inputs w ! i) i
            then 0 \<le> r \<and> nat r < BUTTON_COUNT \<and> button_active (inputs w ! nat r) (nat r) \<and>
                 (\<forall>j<nat r. \<not> button_active (inputs w ! j) j)
            else r = - 1) \<and>
           events w' = events w @
             map (\<lambda>i. ReadPin GPIOB (button_pins ! i)
                        (pin_level (gpiob_idr (inputs w ! i)) (button_pins ! i)))
               [0..<(if r < 0 then BUTTON_COUNT else nat r + 1)] \<and>
           inputs w' = drop (if r < 0 then BUTTON_COUNT else nat r + 1) (inputs w)"
proof -
  from assms obtain a b c d rest where ins: "inputs w = a # b # c # d # rest"
    by (rule four_samples)
  let ?P = "\<lambda>i. button_active (inputs w ! i) i"
  let ?ev = "\<lambda>i. ReadPin GPIOB (button_pins ! i)
                   (pin_level (gpiob_idr (inputs w ! i)) (button_pins ! i))"
  let ?w1 = "after_read GPIOB (button_pins ! 0) a w"
  let ?w2 = "after_read GPIOB (button_pins ! 1) b ?w1"
  let ?w3 = "after_read GPIOB (button_pins ! 2) c ?w2"
  let ?w4 = "after_read GPIOB (button_pins ! 3) d ?w3"
  have nth: "inputs w ! 0 = a" "inputs w ! 1 = b" "inputs w ! 2 = c" "inputs w ! 3 = d"
    using ins by simp_all
  have less: "i < BUTTON_COUNT \<longleftrightarrow> i = 0 \<or> i = 1 \<or> i = 2 \<or> i = 3" for i :: nat
    by (auto simp: BUTTON_COUNT_def)
  have upt: "[0..<BUTTON_COUNT] = [0, 1, 2, 3]" "[0..<3] = [0, 1, 2::nat]"
    "[0..<2] = [0, 1::nat]" "[0..<1] = [0::nat]"
    by (simp_all add: upt_rec BUTTON_COUNT_def)
  have ev1: "events ?w1 = events w @ map ?ev [0..<1]" "inputs ?w1 = drop 1 (inputs w)"
    unfolding upt using ins by (simp_all add: after_read_def port_idr_def)
  have ev2: "events ?w2 = events w @ map ?ev [0..<2]" "inputs ?w2 = drop 2 (inputs w)"
    unfolding upt using ins by (simp_all add: after_read_def port_idr_def)
  have ev3: "events ?w3 = events w @ map ?ev [0..<3]" "inputs ?w3 = drop 3 (inputs w)"
    unfolding upt using ins by (simp_all add: after_read_def port_idr_def)
  have ev4: "events ?w4 = events w @ map ?ev [0..<BUTTON_COUNT]"
    "inputs ?w4 = drop BUTTON_COUNT (inputs w)"
    unfolding upt using ins by (simp_all add: after_read_def port_idr_def BUTTON_COUNT_def)
  consider (p0) "?P 0" | (p1) "\<not> ?P 0" "?P 1" | (p2) "\<not> ?P 0" "\<not> ?P 1" "?P 2"
    | (p3) "\<not> ?P 0" "\<not> ?P 1" "\<not> ?P 2" "?P 3" | (none) "\<not> ?P 0" "\<not> ?P 1" "\<not> ?P 2" "\<not> ?P 3"
    by blast
  then show ?thesis
  proof cases
    case p0
    then have ex: "\<exists>i<BUTTON_COUNT. ?P i" unfolding less by blast
    have run: "GetPressedButtonIndex w = Done 0 ?w1"
      using p0 [unfolded nth] by (simp add: scan_four [OF ins] Let_def)
    have first: "0 \<le> (0::int) \<and> nat 0 < BUTTON_COUNT \<and> ?P (nat 0) \<and> (\<forall>j<nat 0. \<not> ?P j)"
      using p0 by (simp add: BUTTON_COUNT_def)
    show ?thesis
      apply (rule exI [of _ 0], rule exI [of _ ?w1])
      using run first ev1 by (simp only: ex if_True) (simp add: eval_nat_numeral BUTTON_COUNT_def)
  next
    case p1
    then have ex: "\<exists>i<BUTTON_COUNT. ?P i" unfolding less by blast
    have run: "GetPressedButtonIndex w = Done 1 ?w2"
      using p1 [unfolded nth] by (simp add: scan_four [OF ins] Let_def)
    have first: "0 \<le> (1::int) \<and> nat 1 < BUTTON_COUNT \<and> ?P (nat 1) \<and> (\<forall>j<nat 1. \<not> ?P j)"
      using p1 by (simp add: BUTTON_COUNT_def)
    show ?thesis
      apply (rule exI [of _ 1], rule exI [of _ ?w2])
      using run first ev2 by (simp only: ex if_True) (simp add: eval_nat_numeral BUTTON_COUNT_def)
  next
    case p2
    then have ex: "\<exists>i<BUTTON_COUNT. ?P i" unfolding less by blast
    have run: "GetPressedButtonIndex w = Done 2 ?w3"
      using p2 [unfolded nth] by (simp add: scan_four [OF ins] Let_def)
    have "\<not> ?P j" if "j < 2" for j
      using that p2 by (cases j) (auto simp: less_Suc_eq numeral_2_eq_2)
    then have first: "0 \<le> (2::int) \<and> nat 2 < BUTTON_COUNT \<and> ?P (nat 2) \<and> (\<forall>j<nat 2. \<not> ?P j)"
      using p2 by (simp add: BUTTON_COUNT_def)
    show ?thesis
      apply (rule exI [of _ 2], rule exI [of _ ?w3])
      using run first ev3 by (simp only: ex if_True) (simp add: eval_nat_numeral BUTTON_COUNT_def)
  next
    case p3
    then have ex: "\<exists>i<BUTTON_COUNT. ?P i" unfolding less by blast
    have run: "GetPressedButtonIndex w = Done 3 ?w4"
      using p3 [unfolded nth] by (simp add: scan_four [OF ins] Let_def)
    have "j = 0 \<or> j = 1 \<or> j = 2" if "j < 3" for j :: nat
      using that by arith
    then have "\<not> ?P j" if "j < 3" for j
      using that p3 by blast
    then have first: "0 \<le> (3::int) \<and> nat 3 < BUTTON_COUNT \<and> ?P (nat 3) \<and> (\<forall>j<nat 3. \<not> ?P j)"
      using p3 by (simp add: BUTTON_COUNT_def)
    have four: "nat 3 + 1 = BUTTON_COUNT" by (simp add: BUTTON_COUNT_def)
    show ?thesis
      apply (rule exI [of _ 3], rule exI [of _ ?w4])
      using run first ev4 by (simp only: ex if_True) (simp add: eval_nat_numeral BUTTON_COUNT_def)
  next
    case none
    then have ex: "\<not> (\<exists>i<BUTTON_COUNT. ?P i)" unfolding less by blast
    have run: "GetPressedButtonIndex w = Done (- 1) ?w4"
      using none [unfolded nth] by (simp add: scan_four [OF ins] Let_def)
    show ?thesis
      apply (rule exI [of _ "- 1"], rule exI [of _ ?w4])
      using run ev4 by (simp only: ex if_False) (simp add: eval_nat_numeral BUTTON_COUNT_def)
  qed
qed


definition two_buttons :: sample where
  "two_buttons = \<lparr>uptime = 0, gpioa_idr = 0xFFFF, gpiob_idr = 0xFFAF\<rparr>"

text \<open>Buttons 1 and 3 are held during the whole scan: the scan answers 1.\<close>

theorem GetPressedButtonIndex_first_active_witness:
  "BUTTON_COUNT \<le> length (inputs (init_world (replicate 4 two_buttons))) \<and>
   button_active two_buttons 1 \<and> button_active two_buttons 3 \<and>
   (\<exists>w'. GetPressedButtonIndex (init_world (replicate 4 two_buttons)) = Done 1 w')"
proof -
  let ?w = "init_world (replicate 4 two_buttons)"
  let ?P = "\<lambda>i. button_active (inputs ?w ! i) i"
  have len: "BUTTON_COUNT \<le> length (inputs ?w)"
    by (simp add: BUTTON_COUNT_def init_world_def)
  have act: "button_active two_buttons 1" "button_active two_buttons 3"
    "\<not> button_active two_buttons 0"
    by (simp_all add: button_active_def two_buttons_def pin_level_def button_pins_def
        GPIO_PIN_3_def GPIO_PIN_4_def GPIO_PIN_5_def GPIO_PIN_6_def)
  have P: "?P 1" "\<not> ?P 0"
    using act by (simp_all add: init_world_def)
  then have ex: "\<exists>i<BUTTON_COUNT. ?P i"
    by (intro exI [of _ 1]) (simp add: BUTTON_COUNT_def)
  from GetPressedButtonIndex_first_active [OF len] obtain r w'
    where run: "GetPressedButtonIndex ?w = Done r w'"
      and first: "if \<exists>i<BUTTON_COUNT. ?P i
                  then 0 \<le> r \<and> nat r < BUTTON_COUNT \<and> ?P (nat r) \<and> (\<forall>j<nat r. \<not> ?P j)
                  else r = - 1"
    by blast
  have "0 \<le> r \<and> nat r < BUTTON_COUNT \<and> ?P (nat r) \<and> (\<forall>j<nat r. \<not> ?P j)"
    using first unfolding if_P [OF ex] .
  then have r: "0 \<le> r" "?P (nat r)" "\<forall>j<nat r. \<not> ?P j"
    by blast+
  have "\<not> 1 < nat r" using r(3) P(1) by blast
  moreover have "nat r \<noteq> 0" using r(2) P(2) by metis
  ultimately have "nat r = 1" by arith
  with r(1) have "r = 1" by arith
  with run len act show ?thesis by blast
qed

subsection \<open>What the log shows\<close>

text \<open>
  \<open>presses\<close> reads the player's inputs off a log: every press the game registers is
  answered by switching the LED of that index on, and only then. \<open>is_read\<close> holds of
  the log entries of reads.
\<close>

fun is_read :: "event \<Rightarrow> bool" where
  "is_read (ReadPin port pin v) = True"
| "is_read e = False"

definition led_index :: "u16 \<Rightarrow> nat" where
  "led_index pin = length (takeWhile (\<lambda>p. p \<noteq> pin) led_pins)"

definition presses :: "event list \<Rightarrow> nat list" where
  "presses evs =
     concat (map (\<lambda>e. case e of
                          WritePin port pin st \<Rightarrow>
                            if st = GPIO_PIN_SET then [led_index pin] else []
                        | _ \<Rightarrow> []) evs)"

lemma presses_append [simp]: "presses (xs @ ys) = presses xs @ presses ys"
  by (simp add: presses_def)

lemma presses_reads: "list_all is_read evs \<Longrightarrow> presses evs = []"
  by (induction evs) (auto simp: presses_def split: event.splits)

lemma led_index_led_pins: "i < LED_COUNT \<Longrightarrow> led_index (led_pins ! i) = i"
proof -
  assume "i < LED_COUNT"
  then have "i = 0 \<or> i = 1 \<or> i = 2 \<or> i = 3" by (auto simp: LED_COUNT_def)
  then show ?thesis
    by (auto simp: led_index_def led_pins_def GPIO_PIN_3_def GPIO_PIN_4_def GPIO_PIN_5_def
        GPIO_PIN_6_def)
qed

text \<open>What a function that only reads leaves alone.\<close>

lemma scan_buttons_frame:
  "scan_buttons i w = Done r w' \<or> scan_buttons i w = Waiting w' \<Longrightarrow>
     gpioa_odr w' = gpioa_odr w \<and> odr_hist w' = odr_hist w \<and>
     (\<exists>evs. events w' = events w @ evs \<and> list_all is_read evs)"
proof (induction i w rule: scan_buttons.induct)
  case (1 i w)
  show ?case
  proof (cases "i < BUTTON_COUNT")
    case False
    with "1.prems" show ?thesis by (subst (asm) (1 2) scan_buttons.simps) auto
  next
    case True
    then obtain pin where pin: "array_get button_pins i = Some pin"
      by (auto simp: array_get_def button_pins_def BUTTON_COUNT_def)
    show ?thesis
    proof (cases "HAL_GPIO_ReadPin GPIOB pin w")
      case (Done v w1)
      note rd = ReadPin_Done [OF Done]
      show ?thesis
      proof (cases "v = GPIO_PIN_RESET")
        case T: True
        with "1.prems" True pin Done have "w' = w1"
          by (subst (asm) (1 2) scan_buttons.simps) auto
        with rd show ?thesis by auto
      next
        case F: False
        with "1.prems" True pin Done
        have "scan_buttons (i + 1) w1 = Done r w' \<or> scan_buttons (i + 1) w1 = Waiting w'"
          by (subst (asm) (1 2) scan_buttons.simps) auto
        from "1.IH" [OF True pin Done F this] rd show ?thesis by auto
      qed
    next
      case (Waiting w1)
      with "1.prems" True pin have "w' = w1"
        by (subst (asm) (1 2) scan_buttons.simps) auto
      with ReadPin_Waiting [OF Waiting] show ?thesis by auto
    next
      case Fault
      then show ?thesis by (simp add: ReadPin_not_Fault)
    qed
  qed
qed

lemma scan_buttons_range:
  "scan_buttons i w = Done r w' \<Longrightarrow> r = - 1 \<or> (int i \<le> r \<and> r < int BUTTON_COUNT)"
proof (induction i w rule: scan_buttons.induct)
  case (1 i w)
  show ?case
  proof (cases "i < BUTTON_COUNT")
    case False
    with "1.prems" show ?thesis by (subst (asm) scan_buttons.simps) auto
  next
    case True
    then obtain pin where pin: "array_get button_pins i = Some pin"
      by (auto simp: array_get_def button_pins_def BUTTON_COUNT_def)
    from "1.prems" True pin obtain v w1 where rd: "HAL_GPIO_ReadPin GPIOB pin w = Done v w1"
      by (subst (asm) scan_buttons.simps) (auto split: outcome.splits)
    show ?thesis
    proof (cases "v = GPIO_PIN_RESET")
      case T: True
      with "1.prems" True pin rd have "r = int i"
        by (subst (asm) scan_buttons.simps) auto
      with True show ?thesis by simp
    next
      case F: False
      with "1.prems" True pin rd have "scan_buttons (i + 1) w1 = Done r w'"
        by (subst (asm) scan_buttons.simps) auto
      from "1.IH" [OF True pin rd F this] show ?thesis by auto
    qed
  qed
qed

lemma scan_buttons_not_Fault: "scan_buttons i w \<noteq> Fault"
proof (induction i w rule: scan_buttons.induct)
  case (1 i w)
  show ?case
  proof (cases "i < BUTTON_COUNT")
    case False
    then show ?thesis by (subst scan_buttons.simps) auto
  next
    case True
    then obtain pin where pin: "array_get button_pins i = Some pin"
      by (auto simp: array_get_def button_pins_def BUTTON_COUNT_def)
    show ?thesis
    proof (cases "HAL_GPIO_ReadPin GPIOB pin w")
      case (Done v w1)
      with "1.IH" [OF True pin Done] True pin show ?thesis
        by (subst scan_buttons.simps) auto
    next
      case (Waiting w1)
      with True pin show ?thesis by (subst scan_buttons.simps) auto
    next
      case Fault
      then show ?thesis by (simp add: ReadPin_not_Fault)
    qed
  qed
qed

lemma wait_release_Done:
  "wait_release pin w = Done u w' \<Longrightarrow>
     gpioa_odr w' = gpioa_odr w \<and> odr_hist w' = odr_hist w \<and>
     (\<exists>held r. inputs w = held @ r # inputs w' \<and>
        (\<forall>s\<in>set held. pin_level (gpiob_idr s) pin = GPIO_PIN_RESET) \<and>
        pin_level (gpiob_idr r) pin = GPIO_PIN_SET \<and>
        events w' = events w @ replicate (length held) (ReadPin GPIOB pin GPIO_PIN_RESET) @
                      [ReadPin GPIOB pin GPIO_PIN_SET])"
proof (induction pin w rule: wait_release.induct)
  case (1 pin w)
  from "1.prems" obtain v w1 where rd: "HAL_GPIO_ReadPin GPIOB pin w = Done v w1"
    by (subst (asm) wait_release.simps) (auto split: outcome.splits)
  from ReadPin_Done [OF rd] obtain s rest where s: "inputs w = s # rest"
    "v = pin_level (gpiob_idr s) pin" "w1 = after_read GPIOB pin s w"
    by (auto simp: port_idr_def)
  show ?case
  proof (cases "v = GPIO_PIN_RESET")
    case True
    with "1.prems" rd have "wait_release pin w1 = Done u w'"
      by (subst (asm) wait_release.simps) auto
    from "1.IH" [OF rd True this] obtain held r where
      ih: "gpioa_odr w' = gpioa_odr w1" "odr_hist w' = odr_hist w1"
        "inputs w1 = held @ r # inputs w'"
        "\<forall>s\<in>set held. pin_level (gpiob_idr s) pin = GPIO_PIN_RESET"
        "pin_level (gpiob_idr r) pin = GPIO_PIN_SET"
        "events w' = events w1 @ replicate (length held) (ReadPin GPIOB pin GPIO_PIN_RESET) @
                      [ReadPin GPIOB pin GPIO_PIN_SET]"
      by blast
    have "inputs w = (s # held) @ r # inputs w'"
      using s ih(3) by simp
    moreover have "\<forall>x\<in>set (s # held). pin_level (gpiob_idr x) pin = GPIO_PIN_RESET"
      using ih(4) True s(2) by simp
    moreover have "events w' = events w @
        replicate (length (s # held)) (ReadPin GPIOB pin GPIO_PIN_RESET) @
        [ReadPin GPIOB pin GPIO_PIN_SET]"
      using ih(6) s True by (simp add: port_idr_def)
    ultimately show ?thesis using ih(1,2,5) s(3) by (metis after_read_fields(3,4))
  next
    case False
    with "1.prems" rd have w': "w' = w1"
      by (subst (asm) wait_release.simps) auto
    from False s(2) have set: "pin_level (gpiob_idr s) pin = GPIO_PIN_SET"
      by (cases "pin_level (gpiob_idr s) pin") auto
    have "inputs w = [] @ s # inputs w'" using s w' by simp
    moreover have "events w' = events w @ replicate (length ([]::sample list))
        (ReadPin GPIOB pin GPIO_PIN_RESET) @ [ReadPin GPIOB pin GPIO_PIN_SET]"
      using s w' set by (simp add: port_idr_def)
    ultimately show ?thesis using set s(3) w'
      by (metis after_read_fields(3,4) empty_iff empty_set)
  qed
qed

lemma wait_release_Waiting:
  "wait_release pin w = Waiting w' \<Longrightarrow>
     gpioa_odr w' = gpioa_odr w \<and> odr_hist w' = odr_hist w \<and> inputs w' = [] \<and>
     (\<forall>s\<in>set (inputs w). pin_level (gpiob_idr s) pin = GPIO_PIN_RESET) \<and>
     events w' = events w @ replicate (length (inputs w)) (ReadPin GPIOB pin GPIO_PIN_RESET)"
proof (induction pin w rule: wait_release.induct)
  case (1 pin w)
  show ?case
  proof (cases "HAL_GPIO_ReadPin GPIOB pin w")
    case (Done v w1)
    from ReadPin_Done [OF Done] obtain s rest where s: "inputs w = s # rest"
      "v = pin_level (gpiob_idr s) pin" "w1 = after_read GPIOB pin s w"
      by (auto simp: port_idr_def)
    from "1.prems" Done have reset: "v = GPIO_PIN_RESET"
      by (subst (asm) wait_release.simps) (auto split: if_splits)
    with "1.prems" Done have "wait_release pin w1 = Waiting w'"
      by (subst (asm) wait_release.simps) auto
    from "1.IH" [OF Done reset this] s reset show ?thesis
      by (simp add: port_idr_def replicate_append_same)
  next
    case (Waiting w1)
    with "1.prems" have "w' = w1"
      by (subst (asm) wait_release.simps) auto
    with ReadPin_Waiting [OF Waiting] show ?thesis by simp
  next
    case Fault
    then show ?thesis by (simp add: ReadPin_not_Fault)
  qed
qed

lemma wait_release_not_Fault: "wait_release pin w \<noteq> Fault"
proof (induction pin w rule: wait_release.induct)
  case (1 pin w)
  show ?case
  proof (cases "HAL_GPIO_ReadPin GPIOB pin w")
    case (Done v w1)
    with "1.IH" [OF Done] show ?thesis
      by (subst wait_release.simps) auto
  next
    case (Waiting w1)
    then show ?thesis by (subst wait_release.simps) auto
  next
    case Fault
    then show ?thesis by (simp add: ReadPin_not_Fault)
  qed
qed

lemma wait_release_held:
  "\<forall>s\<in>set (inputs w). pin_level (gpiob_idr s) pin = GPIO_PIN_RESET \<Longrightarrow>
     \<exists>w'. wait_release pin w = Waiting w'"
proof (induction pin w rule: wait_release.induct)
  case (1 pin w)
  show ?case
  proof (cases "HAL_GPIO_ReadPin GPIOB pin w")
    case (Done v w1)
    from ReadPin_Done [OF Done] obtain s rest where s: "inputs w = s # rest"
      "v = pin_level (gpiob_idr s) pin" "w1 = after_read GPIOB pin s w"
      by (auto simp: port_idr_def)
    with "1.prems" have reset: "v = GPIO_PIN_RESET" by simp
    have "\<forall>s\<in>set (inputs w1). pin_level (gpiob_idr s) pin = GPIO_PIN_RESET"
      using "1.prems" s by simp
    from "1.IH" [OF Done reset this] Done reset show ?thesis
      by (subst wait_release.simps) auto
  next
    case (Waiting w1)
    then show ?thesis by (subst wait_release.simps) auto
  next
    case Fault
    then show ?thesis by (simp add: ReadPin_not_Fault)
  qed
qed

lemma HAL_Delay_fields [simp]:
  "inputs (HAL_Delay ms w) = inputs w"
  "now (HAL_Delay ms w) = now w"
  "gpioa_odr (HAL_Delay ms w) = gpioa_odr w"
  "odr_hist (HAL_Delay ms w) = odr_hist w"
  "events (HAL_Delay ms w) = events w @ [Delay ms]"
  by (simp_all add: HAL_Delay_def)

lemma HAL_GPIO_WritePin_fields [simp]:
  "inputs (HAL_GPIO_WritePin port pin st w) = inputs w"
  "now (HAL_GPIO_WritePin port pin st w) = now w"
  "events (HAL_GPIO_WritePin port pin st w) = events w @ [WritePin port pin st]"
  "gpioa_odr (HAL_GPIO_WritePin GPIOA pin GPIO_PIN_SET w) = gpioa_odr w OR pin"
  "gpioa_odr (HAL_GPIO_WritePin GPIOA pin GPIO_PIN_RESET w) = gpioa_odr w AND NOT pin"
  "odr_hist (HAL_GPIO_WritePin GPIOA pin GPIO_PIN_SET w) = odr_hist w @ [gpioa_odr w OR pin]"
  "odr_hist (HAL_GPIO_WritePin GPIOA pin GPIO_PIN_RESET w) =
     odr_hist w @ [gpioa_odr w AND NOT pin]"
  by (simp_all add: HAL_GPIO_WritePin_def set_odr_def)

lemma HAL_GPIO_TogglePin_fields [simp]:
  "inputs (HAL_GPIO_TogglePin port pin w) = inputs w"
  "now (HAL_GPIO_TogglePin port pin w) = now w"
  "events (HAL_GPIO_TogglePin port pin w) = events w @ [TogglePin port pin]"
  "gpioa_odr (HAL_GPIO_TogglePin GPIOA pin w) = gpioa_odr w XOR pin"
  "odr_hist (HAL_GPIO_TogglePin GPIOA pin w) = odr_hist w @ [gpioa_odr w XOR pin]"
  by (simp_all add: HAL_GPIO_TogglePin_def set_odr_def)

text \<open>
  The log of one registered press of button \<open>idx\<close>: LED on, the delay, \<open>k\<close> reads that
  find the button still held, the read that finds it released, LED off, the delay.
\<close>

definition press_events :: "nat \<Rightarrow> nat \<Rightarrow> event list" where
  "press_events idx k =
     [WritePin GPIOA (led_pins ! idx) GPIO_PIN_SET, Delay GAME_SPEED_MS] @
     replicate k (ReadPin GPIOB (button_pins ! idx) GPIO_PIN_RESET) @
     [ReadPin GPIOB (button_pins ! idx) GPIO_PIN_SET,
      WritePin GPIOA (led_pins ! idx) GPIO_PIN_RESET, Delay GAME_SPEED_MS]"

lemma presses_replicate_read [simp]: "presses (replicate k (ReadPin port pin v)) = []"
  by (induction k) (simp_all add: presses_def)

lemma presses_press_events: "idx < LED_COUNT \<Longrightarrow> presses (press_events idx k) = [idx]"
  by (simp add: press_events_def led_index_led_pins) (simp add: presses_def led_index_led_pins)

lemma scan_buttons_inputs:
  "scan_buttons i w = Done r w' \<Longrightarrow> \<exists>pre. inputs w = pre @ inputs w'"
proof (induction i w rule: scan_buttons.induct)
  case (1 i w)
  show ?case
  proof (cases "i < BUTTON_COUNT")
    case False
    with "1.prems" show ?thesis by (subst (asm) scan_buttons.simps) auto
  next
    case True
    then obtain pin where pin: "array_get button_pins i = Some pin"
      by (auto simp: array_get_def button_pins_def BUTTON_COUNT_def)
    from "1.prems" True pin obtain v w1 where rd: "HAL_GPIO_ReadPin GPIOB pin w = Done v w1"
      by (subst (asm) scan_buttons.simps) (auto split: outcome.splits)
    from ReadPin_Done [OF rd] obtain s rest where s: "inputs w = s # rest"
      "w1 = after_read GPIOB pin s w" by auto
    then have w1: "inputs w = [s] @ inputs w1" by simp
    show ?thesis
    proof (cases "v = GPIO_PIN_RESET")
      case T: True
      with "1.prems" True pin rd have "w' = w1"
        by (subst (asm) scan_buttons.simps) auto
      with w1 show ?thesis by blast
    next
      case F: False
      with "1.prems" True pin rd have "scan_buttons (i + 1) w1 = Done r w'"
        by (subst (asm) scan_buttons.simps) auto
      from "1.IH" [OF True pin rd F this] obtain pre where "inputs w1 = pre @ inputs w'" ..
      with w1 have "inputs w = (s # pre) @ inputs w'" by simp
      then show ?thesis by blast
    qed
  qed
qed

lemma scan_buttons_detect:
  "scan_buttons i w = Done r w' \<Longrightarrow> 0 \<le> r \<Longrightarrow>
     \<exists>evs0. events w' = events w @ evs0 @ [ReadPin GPIOB (button_pins ! nat r) GPIO_PIN_RESET]"
proof (induction i w rule: scan_buttons.induct)
  case (1 i w)
  show ?case
  proof (cases "i < BUTTON_COUNT")
    case False
    with "1.prems" show ?thesis by (subst (asm) scan_buttons.simps) auto
  next
    case True
    then have pin: "array_get button_pins i = Some (button_pins ! i)"
      by (simp add: array_get_def button_pins_def BUTTON_COUNT_def)
    from "1.prems"(1) True pin obtain v w1 where
      rd: "HAL_GPIO_ReadPin GPIOB (button_pins ! i) w = Done v w1"
      by (subst (asm) scan_buttons.simps) (auto split: outcome.splits)
    from ReadPin_Done [OF rd] obtain s rest where s: "inputs w = s # rest"
      "v = pin_level (port_idr GPIOB s) (button_pins ! i)"
      "w1 = after_read GPIOB (button_pins ! i) s w"
      by auto
    show ?thesis
    proof (cases "v = GPIO_PIN_RESET")
      case T: True
      with "1.prems"(1) True pin rd have "w' = w1" "r = int i"
        by (subst (asm) scan_buttons.simps; simp)+
      with s T have "events w' = events w @ [] @
          [ReadPin GPIOB (button_pins ! nat r) GPIO_PIN_RESET]"
        by simp
      then show ?thesis by blast
    next
      case F: False
      with "1.prems"(1) True pin rd have "scan_buttons (i + 1) w1 = Done r w'"
        by (subst (asm) scan_buttons.simps) auto
      from "1.IH" [OF True pin rd F this "1.prems"(2)] obtain evs0 where
        "events w' = events w1 @ evs0 @ [ReadPin GPIOB (button_pins ! nat r) GPIO_PIN_RESET]"
        by blast
      with s(3) have "events w' = events w @
          (ReadPin GPIOB (button_pins ! i) v # evs0) @
          [ReadPin GPIOB (button_pins ! nat r) GPIO_PIN_RESET]"
        using s(2) by simp
      then show ?thesis by blast
    qed
  qed
qed

lemma GetPressedButtonIndex_Done:
  assumes "GetPressedButtonIndex w = Done r w'"
  shows "(r = - 1 \<or> (0 \<le> r \<and> nat r < BUTTON_COUNT)) \<and>
         gpioa_odr w' = gpioa_odr w \<and> odr_hist w' = odr_hist w \<and>
         (\<exists>evs. events w' = events w @ evs \<and> list_all is_read evs) \<and>
         (\<exists>pre. inputs w = pre @ inputs w')"
proof -
  from assms have scan: "scan_buttons 0 w = Done r w'"
    by (simp add: GetPressedButtonIndex_def)
  from scan_buttons_range [OF scan] have "r = - 1 \<or> (0 \<le> r \<and> nat r < BUTTON_COUNT)" by auto
  with scan_buttons_frame [of 0 w r w'] scan_buttons_inputs [OF scan] scan show ?thesis
    by blast
qed

lemma GetPressedButtonIndex_Waiting:
  assumes "GetPressedButtonIndex w = Waiting w'"
  shows "gpioa_odr w' = gpioa_odr w \<and> odr_hist w' = odr_hist w \<and>
         (\<exists>evs. events w' = events w @ evs \<and> list_all is_read evs)"
  using assms scan_buttons_frame [of 0 w _ w'] by (simp add: GetPressedButtonIndex_def)

lemma GetPressedButtonIndex_not_Fault: "GetPressedButtonIndex w \<noteq> Fault"
  by (simp add: GetPressedButtonIndex_def scan_buttons_not_Fault)

text \<open>The three ways one pass of the loop \<open>while (!flag)\<close> can go.\<close>

lemma await_input_none:
  "GetPressedButtonIndex w = Done index w1 \<Longrightarrow> index < 0 \<Longrightarrow>
     await_input g i w = await_input g i w1"
  by (subst await_input.simps) simp

lemma await_input_starved:
  "GetPressedButtonIndex w = Waiting w1 \<Longrightarrow> await_input g i w = Waiting w1"
  by (subst await_input.simps) simp

lemma await_input_pressed:
  assumes "GetPressedButtonIndex w = Done index w1" "0 \<le> index"
  shows "await_input g i w =
           (case wait_release (button_pins ! nat index)
                   (HAL_Delay GAME_SPEED_MS
                      (HAL_GPIO_WritePin GPIOA (led_pins ! nat index) GPIO_PIN_SET w1)) of
              Fault \<Rightarrow> Fault
            | Waiting w2 \<Rightarrow> Waiting w2
            | Done u w2 \<Rightarrow>
                (case array_get (sequence g) i of
                   None \<Rightarrow> Fault
                 | Some expected \<Rightarrow>
                     Done (if nat index = expected then g else g\<lparr>state := GAME_OVER\<rparr>)
                       (HAL_Delay GAME_SPEED_MS
                          (HAL_GPIO_WritePin GPIOA (led_pins ! nat index)
                             GPIO_PIN_RESET w2))))"
proof -
  from GetPressedButtonIndex_Done [OF assms(1)] assms(2)
  have range: "nat index < BUTTON_COUNT" by auto
  with assms(2) have arr: "array_at led_pins index = Some (led_pins ! nat index)"
    "array_at button_pins index = Some (button_pins ! nat index)"
    by (simp_all add: array_at_def led_pins_def button_pins_def BUTTON_COUNT_def)
  from range assms(2) have "index < 4" by (simp add: BUTTON_COUNT_def)
  with assms(2) have cast: "nat (index mod 2 ^ 32) = nat index" by simp
  show ?thesis
    using assms arr cast
    by (subst await_input.simps) (simp add: Let_def split: outcome.splits option.splits)
qed

lemma await_input_Done:
  "await_input g i w = Done g' w' \<Longrightarrow>
     \<exists>idx polls k expected pre held r.
        idx < BUTTON_COUNT \<and> list_all is_read polls \<and>
        array_get (sequence g) i = Some expected \<and>
        g' = (if idx = expected then g else g\<lparr>state := GAME_OVER\<rparr>) \<and>
        events w' = events w @ polls @ press_events idx k \<and>
        inputs w = pre @ held @ r # inputs w' \<and> length held = k \<and>
        (\<forall>s\<in>set held. button_active s idx) \<and> \<not> button_active r idx \<and>
        (\<exists>polls0. polls = polls0 @ [ReadPin GPIOB (button_pins ! idx) GPIO_PIN_RESET])"
proof (induction g i w rule: await_input.induct)
  case (1 g i w)
  show ?case
  proof (cases "GetPressedButtonIndex w")
    case (Done index w1)
    from GetPressedButtonIndex_Done [OF Done] obtain evs pre where
      scan: "index = - 1 \<or> (0 \<le> index \<and> nat index < BUTTON_COUNT)"
        "events w1 = events w @ evs" "list_all is_read evs" "inputs w = pre @ inputs w1"
      by blast
    show ?thesis
    proof (cases "0 \<le> index")
      case True
      let ?idx = "nat index"
      let ?on = "HAL_Delay GAME_SPEED_MS
                   (HAL_GPIO_WritePin GPIOA (led_pins ! ?idx) GPIO_PIN_SET w1)"
      from scan(1) True have idx: "?idx < BUTTON_COUNT" by auto
      from "1.prems" obtain u w2 expected where
        rel: "wait_release (button_pins ! ?idx) ?on = Done u w2"
        and exp: "array_get (sequence g) i = Some expected"
        and g': "g' = (if ?idx = expected then g else g\<lparr>state := GAME_OVER\<rparr>)"
        and w': "w' = HAL_Delay GAME_SPEED_MS
                        (HAL_GPIO_WritePin GPIOA (led_pins ! ?idx) GPIO_PIN_RESET w2)"
        unfolding await_input_pressed [OF Done True]
        by (auto split: outcome.splits option.splits)
      from wait_release_Done [OF rel] obtain held r where
        wr: "inputs ?on = held @ r # inputs w2"
          "\<forall>s\<in>set held. pin_level (gpiob_idr s) (button_pins ! ?idx) = GPIO_PIN_RESET"
          "pin_level (gpiob_idr r) (button_pins ! ?idx) = GPIO_PIN_SET"
          "events w2 = events ?on @
             replicate (length held) (ReadPin GPIOB (button_pins ! ?idx) GPIO_PIN_RESET) @
             [ReadPin GPIOB (button_pins ! ?idx) GPIO_PIN_SET]"
        by blast
      have ev: "events w' = events w @ evs @ press_events ?idx (length held)"
        using w' wr(4) scan(2) by (simp add: press_events_def)
      have ins: "inputs w = pre @ held @ r # inputs w'"
        using w' wr(1) scan(4) by simp
      have held: "\<forall>s\<in>set held. button_active s ?idx" "\<not> button_active r ?idx"
        using wr(2,3) by (simp_all add: button_active_def)
      from scan_buttons_detect [of 0 w index w1] Done True obtain evs0 where
        "events w1 = events w @ evs0 @ [ReadPin GPIOB (button_pins ! ?idx) GPIO_PIN_RESET]"
        by (auto simp: GetPressedButtonIndex_def)
      with scan(2) have "evs = evs0 @ [ReadPin GPIOB (button_pins ! ?idx) GPIO_PIN_RESET]"
        by simp
      then have last: "\<exists>polls0. evs = polls0 @ [ReadPin GPIOB (button_pins ! ?idx) GPIO_PIN_RESET]"
        by blast
      show ?thesis
        apply (rule exI [of _ ?idx], rule exI [of _ evs], rule exI [of _ "length held"])
        apply (rule exI [of _ expected], rule exI [of _ pre], rule exI [of _ held])
        apply (rule exI [of _ r])
        using idx scan(3) exp g' ev ins held last by simp
    next
      case False
      with "1.prems" Done have "await_input g i w1 = Done g' w'"
        by (simp add: await_input_none)
      from "1.IH" [OF Done False this] obtain idx polls k expected pre' held r polls0 where
        ih: "idx < BUTTON_COUNT" "list_all is_read polls"
          "array_get (sequence g) i = Some expected"
          "g' = (if idx = expected then g else g\<lparr>state := GAME_OVER\<rparr>)"
          "events w' = events w1 @ polls @ press_events idx k"
          "inputs w1 = pre' @ held @ r # inputs w'" "length held = k"
          "\<forall>s\<in>set held. button_active s idx" "\<not> button_active r idx"
          "polls = polls0 @ [ReadPin GPIOB (button_pins ! idx) GPIO_PIN_RESET]"
        by (elim exE conjE) (rule that)
      have ev: "events w' = events w @ (evs @ polls) @ press_events idx k"
        using ih(5) scan(2) by simp
      have rd: "list_all is_read (evs @ polls)"
        using ih(2) scan(3) by simp
      have ins: "inputs w = (pre @ pre') @ held @ r # inputs w'"
        using ih(6) scan(4) by simp
      from ih(10) have "evs @ polls = (evs @ polls0) @
          [ReadPin GPIOB (button_pins ! idx) GPIO_PIN_RESET]"
        by simp
      then have last: "\<exists>polls0. evs @ polls = polls0 @
          [ReadPin GPIOB (button_pins ! idx) GPIO_PIN_RESET]"
        by blast
      show ?thesis
        apply (rule exI [of _ idx], rule exI [of _ "evs @ polls"], rule exI [of _ k])
        apply (rule exI [of _ expected], rule exI [of _ "pre @ pre'"], rule exI [of _ held])
        apply (rule exI [of _ r])
        using ih(1,3,4,7,8,9) ev rd ins last by simp
    qed
  next
    case (Waiting w1)
    with "1.prems" show ?thesis by (simp add: await_input_starved)
  next
    case Fault
    then show ?thesis by (simp add: GetPressedButtonIndex_not_Fault)
  qed
qed

lemma player_says_loop_Done:
  "player_says_loop i g w = Done g' w' \<Longrightarrow> state g = PLAYER_SAYS \<Longrightarrow>
     \<exists>evs. events w' = events w @ evs \<and>
       ((g' = g \<and> (\<forall>j. i \<le> j \<and> j \<le> current_level g \<longrightarrow> j < length (sequence g)) \<and>
         presses evs = map (\<lambda>j. sequence g ! j) [i..<Suc (current_level g)]) \<or>
        (g' = g\<lparr>state := GAME_OVER\<rparr> \<and>
         (\<exists>k p n evs0. i \<le> k \<and> k \<le> current_level g \<and> k < length (sequence g) \<and>
            p < BUTTON_COUNT \<and> p \<noteq> sequence g ! k \<and> evs = evs0 @ press_events p n \<and>
            presses evs0 = map (\<lambda>j. sequence g ! j) [i..<k])))"
proof (induction i g w rule: player_says_loop.induct)
  case (1 i g w)
  show ?case
  proof (cases "i \<le> current_level g")
    case False
    with "1.prems" have "g' = g" "w' = w"
      by (subst (asm) player_says_loop.simps; simp)+
    with False show ?thesis by (simp add: presses_def)
  next
    case True
    with "1.prems" obtain g1 w1 where aw: "await_input g i w = Done g1 w1"
      by (subst (asm) player_says_loop.simps) (auto split: outcome.splits)
    from await_input_Done [OF aw] obtain idx polls n expected where
      a: "idx < BUTTON_COUNT" "list_all is_read polls"
        "array_get (sequence g) i = Some expected"
        "g1 = (if idx = expected then g else g\<lparr>state := GAME_OVER\<rparr>)"
        "events w1 = events w @ polls @ press_events idx n"
      by blast
    from a(3) have len: "i < length (sequence g)" and exp: "expected = sequence g ! i"
      by (auto simp: array_get_def split: if_splits)
    have idx_led: "idx < LED_COUNT" using a(1) by (simp add: BUTTON_COUNT_def LED_COUNT_def)
    show ?thesis
    proof (cases "idx = expected")
      case False
      with a(4) have g1: "g1 = g\<lparr>state := GAME_OVER\<rparr>" by simp
      with "1.prems" True aw have res: "g' = g\<lparr>state := GAME_OVER\<rparr>" "w' = w1"
        by (subst (asm) player_says_loop.simps; simp)+
      have "presses polls = map (\<lambda>j. sequence g ! j) [i..<i]"
        using a(2) by (simp add: presses_reads)
      with res a(1,5) len False exp True show ?thesis by blast
    next
      case same: True
      with a(4) have g1: "g1 = g" by simp
      with "1.prems" True aw have rec: "player_says_loop (i + 1) g w1 = Done g' w'"
        by (subst (asm) player_says_loop.simps) simp
      have keep: "\<not> state g1 \<noteq> PLAYER_SAYS" using g1 "1.prems"(2) by simp
      from "1.IH" [OF True aw keep] rec g1 "1.prems"(2) obtain evs where
        ih: "events w' = events w1 @ evs"
          "(g' = g \<and> (\<forall>j. i + 1 \<le> j \<and> j \<le> current_level g \<longrightarrow> j < length (sequence g)) \<and>
             presses evs = map (\<lambda>j. sequence g ! j) [i + 1..<Suc (current_level g)]) \<or>
           (g' = g\<lparr>state := GAME_OVER\<rparr> \<and>
            (\<exists>k p n evs0. i + 1 \<le> k \<and> k \<le> current_level g \<and> k < length (sequence g) \<and>
               p < BUTTON_COUNT \<and> p \<noteq> sequence g ! k \<and> evs = evs0 @ press_events p n \<and>
               presses evs0 = map (\<lambda>j. sequence g ! j) [i + 1..<k]))"
        by blast
      let ?here = "polls @ press_events idx n"
      have here: "presses ?here = [sequence g ! i]"
        using a(2) idx_led same exp by (simp add: presses_reads presses_press_events)
      have ev: "events w' = events w @ ?here @ evs"
        using ih(1) a(5) by simp
      from ih(2) show ?thesis
      proof
        assume ok: "g' = g \<and> (\<forall>j. i + 1 \<le> j \<and> j \<le> current_level g \<longrightarrow> j < length (sequence g)) \<and>
             presses evs = map (\<lambda>j. sequence g ! j) [i + 1..<Suc (current_level g)]"
        then have "presses (?here @ evs) = map (\<lambda>j. sequence g ! j) [i..<Suc (current_level g)]"
          using here True by (simp add: upt_conv_Cons del: upt_Suc)
        moreover have "\<forall>j. i \<le> j \<and> j \<le> current_level g \<longrightarrow> j < length (sequence g)"
          using ok len by (metis Suc_eq_plus1 Suc_leI le_neq_implies_less)
        ultimately show ?thesis using ok ev by blast
      next
        assume "g' = g\<lparr>state := GAME_OVER\<rparr> \<and>
            (\<exists>k p n evs0. i + 1 \<le> k \<and> k \<le> current_level g \<and> k < length (sequence g) \<and>
               p < BUTTON_COUNT \<and> p \<noteq> sequence g ! k \<and> evs = evs0 @ press_events p n \<and>
               presses evs0 = map (\<lambda>j. sequence g ! j) [i + 1..<k])"
        then obtain k p m evs0 where
          bad: "g' = g\<lparr>state := GAME_OVER\<rparr>" "i + 1 \<le> k" "k \<le> current_level g"
            "k < length (sequence g)" "p < BUTTON_COUNT" "p \<noteq> sequence g ! k"
            "evs = evs0 @ press_events p m"
            "presses evs0 = map (\<lambda>j. sequence g ! j) [i + 1..<k]"
          by blast
        have "presses (?here @ evs0) = map (\<lambda>j. sequence g ! j) [i..<k]"
          using here bad(2,8) by (simp add: upt_conv_Cons del: upt_Suc)
        moreover have "?here @ evs = (?here @ evs0) @ press_events p m"
          using bad(7) by simp
        moreover have "i \<le> k" using bad(2) by simp
        ultimately show ?thesis using bad(1,3,4,5,6) ev by metis
      qed
    qed
  qed
qed

subsection \<open>What the player does\<close>

text \<open>
  One press of a button as the reads of the loop \<open>while (!flag)\<close> meet it, told from the
  samples alone. \<open>idle_scans\<close> holds of the samples of whole scans, four reads each, in
  which no read finds its button active. \<open>scan_finds b\<close> holds of the samples of the scan
  that reaches button \<open>b\<close>: the reads of the buttons below \<open>b\<close> find them inactive and
  the read of \<open>b\<close> finds it active. A \<open>press\<close> is the samples of the idle scans, of the
  scan that finds the button, of the reads of the release wait that find it still held,
  and the one that finds it released; \<open>press_of b p\<close> says that \<open>p\<close> is such a press of
  button \<open>b\<close>. Nothing is asked of the pins the reads do not look at.
\<close>

fun idle_scans :: "sample list \<Rightarrow> bool" where
  "idle_scans [] = True"
| "idle_scans (a # b # c # d # xs) =
     (\<not> button_active a 0 \<and> \<not> button_active b 1 \<and> \<not> button_active c 2 \<and>
      \<not> button_active d 3 \<and> idle_scans xs)"
| "idle_scans xs = False"

definition scan_finds :: "nat \<Rightarrow> sample list \<Rightarrow> bool" where
  "scan_finds b xs =
     (b < BUTTON_COUNT \<and> length xs = Suc b \<and>
      list_all (\<lambda>j. \<not> button_active (xs ! j) j) [0..<b] \<and> button_active (xs ! b) b)"

record press =
  idle_polls :: "sample list"
  finding_scan :: "sample list"
  held_reads :: "sample list"
  release_read :: sample

definition press_samples :: "press \<Rightarrow> sample list" where
  "press_samples p = idle_polls p @ finding_scan p @ held_reads p @ [release_read p]"

definition press_of :: "nat \<Rightarrow> press \<Rightarrow> bool" where
  "press_of b p =
     (idle_scans (idle_polls p) \<and> scan_finds b (finding_scan p) \<and>
      list_all (\<lambda>s. button_active s b) (held_reads p) \<and> \<not> button_active (release_read p) b)"

text \<open>From the samples to the run: the scan that finds button \<open>b\<close> answers \<open>b\<close>.\<close>

lemma scan_buttons_finds:
  assumes "b < BUTTON_COUNT" "i \<le> b" "inputs w = xs @ rest" "length xs = Suc b - i"
    "\<forall>j<b - i. \<not> button_active (xs ! j) (i + j)" "button_active (xs ! (b - i)) b"
  shows "\<exists>w1. scan_buttons i w = Done (int b) w1 \<and> inputs w1 = rest"
  using assms
proof (induction "b - i" arbitrary: i w xs)
  case 0
  then have i: "i = b" by simp
  with "0.prems" obtain s where xs: "xs = [s]" by (cases xs) auto
  with "0.prems" i have ins: "inputs w = s # rest" and act: "button_active s b" by simp_all
  from scan_buttons_Cons [OF ins, of b] "0.prems"(1) act i ins
  show ?case by simp
next
  case (Suc n)
  then have lt: "i < b" by simp
  with Suc.prems obtain s xs' where xs: "xs = s # xs'" by (cases xs) auto
  with Suc.prems have ins: "inputs w = s # xs' @ rest" by simp
  let ?w = "after_read GPIOB (button_pins ! i) s w"
  from lt Suc.prems(1) have ib: "i < BUTTON_COUNT" by simp
  from Suc.prems(5) lt xs have "\<not> button_active s i" by force
  with scan_buttons_Cons [OF ins ib]
  have unfold: "scan_buttons i w = scan_buttons (Suc i) ?w" by simp
  have n: "n = b - Suc i" using Suc.hyps(2) by simp
  have le: "Suc i \<le> b" using lt by simp
  have ins': "inputs ?w = xs' @ rest" using ins by simp
  have len: "length xs' = Suc b - Suc i" using Suc.prems(4) xs lt by simp
  have idle: "\<forall>j<b - Suc i. \<not> button_active (xs' ! j) (Suc i + j)"
  proof (intro allI impI)
    fix j assume "j < b - Suc i"
    then have "Suc j < b - i" by simp
    with Suc.prems(5) have "\<not> button_active (xs ! Suc j) (i + Suc j)" by blast
    then show "\<not> button_active (xs' ! j) (Suc i + j)" using xs by simp
  qed
  have act: "button_active (xs' ! (b - Suc i)) b"
    using Suc.prems(6) xs lt by (simp add: Suc_diff_Suc [symmetric] del: Suc_diff_Suc) 
  from Suc.hyps(1) [OF n Suc.prems(1) le ins' len idle act]
  show ?case unfolding unfold .
qed

lemma GetPressedButtonIndex_finds:
  assumes "scan_finds b xs" "inputs w = xs @ rest"
  shows "\<exists>w1. GetPressedButtonIndex w = Done (int b) w1 \<and> inputs w1 = rest"
proof -
  from assms(1) have "b < BUTTON_COUNT" "length xs = Suc b - 0"
    "\<forall>j<b - 0. \<not> button_active (xs ! j) (0 + j)" "button_active (xs ! (b - 0)) b"
    by (simp_all add: scan_finds_def list_all_iff)
  from scan_buttons_finds [OF this(1) le0 assms(2) this(2,3,4)] show ?thesis
    by (simp add: GetPressedButtonIndex_def)
qed

text \<open>One read of the release wait.\<close>

lemma wait_release_Cons:
  "inputs w = s # rest \<Longrightarrow>
     wait_release pin w =
       (if pin_level (gpiob_idr s) pin = GPIO_PIN_RESET
        then wait_release pin (after_read GPIOB pin s w)
        else Done () (after_read GPIOB pin s w))"
  by (subst wait_release.simps) (simp add: HAL_GPIO_ReadPin_def port_idr_def)

text \<open>Scans that find nothing are passed over: the loop polls again.\<close>

lemma await_input_idle:
  "idle_scans idl \<Longrightarrow> inputs w = idl @ xs \<Longrightarrow>
     \<exists>w1 polls. await_input g i w = await_input g i w1 \<and> inputs w1 = xs \<and>
       gpioa_odr w1 = gpioa_odr w \<and> odr_hist w1 = odr_hist w \<and>
       events w1 = events w @ polls \<and> list_all is_read polls"
proof (induction idl arbitrary: w rule: idle_scans.induct)
  case 1
  then have "inputs w = xs" by simp
  then show ?case
    by (intro exI [of _ w] exI [of _ "[]"]) simp
next
  case (2 a b c d rest)
  from "2.prems"(1) have idle: "\<not> button_active a 0" "\<not> button_active b 1"
    "\<not> button_active c 2" "\<not> button_active d 3" "idle_scans rest"
    by simp_all
  from "2.prems"(2) have ins: "inputs w = a # b # c # d # (rest @ xs)" by simp
  let ?w1 = "after_read GPIOB (button_pins ! 0) a w"
  let ?w2 = "after_read GPIOB (button_pins ! 1) b ?w1"
  let ?w3 = "after_read GPIOB (button_pins ! 2) c ?w2"
  let ?w4 = "after_read GPIOB (button_pins ! 3) d ?w3"
  have scan: "GetPressedButtonIndex w = Done (- 1) ?w4"
    using scan_four [OF ins] idle(1-4) by (simp add: Let_def)
  have step: "await_input g i w = await_input g i ?w4"
    using scan by (rule await_input_none) simp
  have ins4: "inputs ?w4 = rest @ xs" using ins by simp
  from "2.IH" [OF idle(5) ins4] obtain w1 polls where
    ih: "await_input g i ?w4 = await_input g i w1" "inputs w1 = xs"
      "gpioa_odr w1 = gpioa_odr ?w4" "odr_hist w1 = odr_hist ?w4"
      "events w1 = events ?w4 @ polls" "list_all is_read polls"
    by (elim exE conjE) (rule that)
  let ?reads = "[ReadPin GPIOB (button_pins ! 0) (pin_level (port_idr GPIOB a) (button_pins ! 0)),
                 ReadPin GPIOB (button_pins ! 1) (pin_level (port_idr GPIOB b) (button_pins ! 1)),
                 ReadPin GPIOB (button_pins ! 2) (pin_level (port_idr GPIOB c) (button_pins ! 2)),
                 ReadPin GPIOB (button_pins ! 3) (pin_level (port_idr GPIOB d) (button_pins ! 3))]"
  have ev: "events w1 = events w @ (?reads @ polls)" using ih(5) by simp
  have rd: "list_all is_read (?reads @ polls)" using ih(6) by simp
  have "await_input g i w = await_input g i w1" using step ih(1) by simp
  moreover have "gpioa_odr w1 = gpioa_odr w" "odr_hist w1 = odr_hist w" using ih(3,4) by simp_all
  ultimately show ?case using ih(2) ev rd by blast
qed simp_all

text \<open>The release wait reads the whole hold and ends at the release, or never ends.\<close>

lemma wait_release_let_go:
  "list_all (\<lambda>s. button_active s b) hld \<Longrightarrow> \<not> button_active r b \<Longrightarrow>
   inputs w = hld @ r # rest \<Longrightarrow>
     \<exists>w'. wait_release (button_pins ! b) w = Done () w' \<and> inputs w' = rest \<and>
       gpioa_odr w' = gpioa_odr w \<and> odr_hist w' = odr_hist w \<and>
       events w' = events w @
         replicate (length hld) (ReadPin GPIOB (button_pins ! b) GPIO_PIN_RESET) @
         [ReadPin GPIOB (button_pins ! b) GPIO_PIN_SET]"
proof (induction hld arbitrary: w)
  case Nil
  then have ins: "inputs w = r # rest" by simp
  from Nil.prems(2) have lvl: "pin_level (gpiob_idr r) (button_pins ! b) = GPIO_PIN_SET"
    by (cases "pin_level (gpiob_idr r) (button_pins ! b)") (auto simp: button_active_def)
  with wait_release_Cons [OF ins, of "button_pins ! b"] ins show ?case
    by (simp add: port_idr_def)
next
  case (Cons s hld)
  then have ins: "inputs w = s # (hld @ r # rest)" by simp
  from Cons.prems(1) have lvl: "pin_level (gpiob_idr s) (button_pins ! b) = GPIO_PIN_RESET"
    and more: "list_all (\<lambda>s. button_active s b) hld"
    by (simp_all add: button_active_def)
  let ?w = "after_read GPIOB (button_pins ! b) s w"
  have unfold: "wait_release (button_pins ! b) w = wait_release (button_pins ! b) ?w"
    using wait_release_Cons [OF ins, of "button_pins ! b"] lvl by simp
  have "inputs ?w = hld @ r # rest" using ins by simp
  from Cons.IH [OF more Cons.prems(2) this] obtain w' where
    ih: "wait_release (button_pins ! b) ?w = Done () w'" "inputs w' = rest"
      "gpioa_odr w' = gpioa_odr ?w" "odr_hist w' = odr_hist ?w"
      "events w' = events ?w @
         replicate (length hld) (ReadPin GPIOB (button_pins ! b) GPIO_PIN_RESET) @
         [ReadPin GPIOB (button_pins ! b) GPIO_PIN_SET]"
    by (elim exE conjE) (rule that)
  have "events w' = events w @
         replicate (length (s # hld)) (ReadPin GPIOB (button_pins ! b) GPIO_PIN_RESET) @
         [ReadPin GPIOB (button_pins ! b) GPIO_PIN_SET]"
    using ih(5) lvl by (simp add: port_idr_def)
  with ih(1-4) show ?case unfolding unfold by simp
qed

lemma wait_release_kept:
  "list_all (\<lambda>s. button_active s b) (inputs w) \<Longrightarrow>
     \<exists>w'. wait_release (button_pins ! b) w = Waiting w' \<and> inputs w' = [] \<and>
       gpioa_odr w' = gpioa_odr w \<and> odr_hist w' = odr_hist w \<and>
       events w' = events w @
         replicate (length (inputs w)) (ReadPin GPIOB (button_pins ! b) GPIO_PIN_RESET)"
proof -
  assume "list_all (\<lambda>s. button_active s b) (inputs w)"
  then have "\<forall>s\<in>set (inputs w). pin_level (gpiob_idr s) (button_pins ! b) = GPIO_PIN_RESET"
    by (simp add: list_all_iff button_active_def)
  from wait_release_held [OF this] obtain w' where
    wr: "wait_release (button_pins ! b) w = Waiting w'" ..
  from wait_release_Waiting [OF wr] wr show ?thesis by simp
qed

text \<open>A press as input is answered; a hold without its release is waited on.\<close>

lemma GetPressedButtonIndex_finds_log:
  assumes "scan_finds b xs" "inputs w = xs @ rest"
  shows "\<exists>w1 polls. GetPressedButtonIndex w = Done (int b) w1 \<and> inputs w1 = rest \<and>
           gpioa_odr w1 = gpioa_odr w \<and> odr_hist w1 = odr_hist w \<and> list_all is_read polls \<and>
           events w1 = events w @ polls @ [ReadPin GPIOB (button_pins ! b) GPIO_PIN_RESET]"
proof -
  from GetPressedButtonIndex_finds [OF assms] obtain w1 where
    scan: "GetPressedButtonIndex w = Done (int b) w1" "inputs w1 = rest"
    by blast
  from GetPressedButtonIndex_Done [OF scan(1)] obtain evs where
    fr: "gpioa_odr w1 = gpioa_odr w" "odr_hist w1 = odr_hist w"
      "events w1 = events w @ evs" "list_all is_read evs"
    by blast
  from scan_buttons_detect [of 0 w "int b" w1] scan(1) obtain evs0 where
    "events w1 = events w @ evs0 @ [ReadPin GPIOB (button_pins ! b) GPIO_PIN_RESET]"
    by (auto simp: GetPressedButtonIndex_def)
  with fr(3) have evs: "evs = evs0 @ [ReadPin GPIOB (button_pins ! b) GPIO_PIN_RESET]" by simp
  with fr(4) have "list_all is_read evs0" by simp
  with scan fr(1,2,3) evs show ?thesis by auto
qed

lemma await_input_press:
  assumes "press_of b p" "inputs w = press_samples p @ rest" "i < length (sequence g)"
  shows "\<exists>w' polls. await_input g i w =
             Done (if b = sequence g ! i then g else g\<lparr>state := GAME_OVER\<rparr>) w' \<and>
           inputs w' = rest \<and> list_all is_read polls \<and>
           events w' = events w @ polls @ [ReadPin GPIOB (button_pins ! b) GPIO_PIN_RESET] @
                         press_events b (length (held_reads p))"
proof -
  from assms(1) have p: "idle_scans (idle_polls p)" "scan_finds b (finding_scan p)"
    "list_all (\<lambda>s. button_active s b) (held_reads p)" "\<not> button_active (release_read p) b"
    by (simp_all add: press_of_def)
  from assms(2) have "inputs w = idle_polls p @ (finding_scan p @ held_reads p @ release_read p # rest)"
    by (simp add: press_samples_def)
  from await_input_idle [OF p(1) this, of g i] obtain w0 polls0 where
    idle: "await_input g i w = await_input g i w0"
      "inputs w0 = finding_scan p @ held_reads p @ release_read p # rest"
      "events w0 = events w @ polls0" "list_all is_read polls0"
    by (elim exE conjE) (rule that)
  from GetPressedButtonIndex_finds_log [OF p(2) idle(2)] obtain w1 polls1 where
    scan: "GetPressedButtonIndex w0 = Done (int b) w1"
      "inputs w1 = held_reads p @ release_read p # rest" "list_all is_read polls1"
      "events w1 = events w0 @ polls1 @ [ReadPin GPIOB (button_pins ! b) GPIO_PIN_RESET]"
    by (elim exE conjE) (rule that)
  let ?on = "HAL_Delay GAME_SPEED_MS
               (HAL_GPIO_WritePin GPIOA (led_pins ! b) GPIO_PIN_SET w1)"
  have "inputs ?on = held_reads p @ release_read p # rest" using scan(2) by simp
  from wait_release_let_go [OF p(3,4) this] obtain w2 where
    wr: "wait_release (button_pins ! b) ?on = Done () w2" "inputs w2 = rest"
      "events w2 = events ?on @
         replicate (length (held_reads p)) (ReadPin GPIOB (button_pins ! b) GPIO_PIN_RESET) @
         [ReadPin GPIOB (button_pins ! b) GPIO_PIN_SET]"
    by (elim exE conjE) (rule that)
  let ?w' = "HAL_Delay GAME_SPEED_MS
               (HAL_GPIO_WritePin GPIOA (led_pins ! b) GPIO_PIN_RESET w2)"
  have arr: "array_get (sequence g) i = Some (sequence g ! i)"
    using assms(3) by (simp add: array_get_def)
  have res: "await_input g i w =
      Done (if b = sequence g ! i then g else g\<lparr>state := GAME_OVER\<rparr>) ?w'"
    unfolding idle(1) using await_input_pressed [OF scan(1), of g i] wr(1) arr by simp
  have ev: "events ?w' = events w @ (polls0 @ polls1) @
      [ReadPin GPIOB (button_pins ! b) GPIO_PIN_RESET] @ press_events b (length (held_reads p))"
    using wr(3) scan(4) idle(3) by (simp add: press_events_def)
  have rd: "list_all is_read (polls0 @ polls1)" using idle(4) scan(3) by simp
  have "inputs ?w' = rest" using wr(2) by simp
  with res ev rd show ?thesis by blast
qed

lemma await_input_hold:
  assumes "idle_scans idl" "scan_finds b fnd" "list_all (\<lambda>s. button_active s b) hld"
    "inputs w = idl @ fnd @ hld"
  shows "\<exists>w2 polls. await_input g i w = Waiting w2 \<and> inputs w2 = [] \<and>
           list_all is_read polls \<and>
           events w2 = events w @ polls @
             [ReadPin GPIOB (button_pins ! b) GPIO_PIN_RESET,
              WritePin GPIOA (led_pins ! b) GPIO_PIN_SET, Delay GAME_SPEED_MS] @
             replicate (length hld) (ReadPin GPIOB (button_pins ! b) GPIO_PIN_RESET) \<and>
           gpioa_odr w2 = gpioa_odr w OR led_pins ! b"
proof -
  from assms(4) have "inputs w = idl @ (fnd @ hld)" by simp
  from await_input_idle [OF assms(1) this, of g i] obtain w0 polls0 where
    idle: "await_input g i w = await_input g i w0" "inputs w0 = fnd @ hld"
      "gpioa_odr w0 = gpioa_odr w"
      "events w0 = events w @ polls0" "list_all is_read polls0"
    by (elim exE conjE) (rule that)
  from GetPressedButtonIndex_finds_log [OF assms(2) idle(2)] obtain w1 polls1 where
    scan: "GetPressedButtonIndex w0 = Done (int b) w1" "inputs w1 = hld"
      "gpioa_odr w1 = gpioa_odr w0" "list_all is_read polls1"
      "events w1 = events w0 @ polls1 @ [ReadPin GPIOB (button_pins ! b) GPIO_PIN_RESET]"
    by (elim exE conjE) (rule that)
  let ?on = "HAL_Delay GAME_SPEED_MS
               (HAL_GPIO_WritePin GPIOA (led_pins ! b) GPIO_PIN_SET w1)"
  have "list_all (\<lambda>s. button_active s b) (inputs ?on)" using scan(2) assms(3) by simp
  from wait_release_kept [OF this] obtain w2 where
    wr: "wait_release (button_pins ! b) ?on = Waiting w2" "inputs w2 = []"
      "gpioa_odr w2 = gpioa_odr ?on"
      "events w2 = events ?on @
         replicate (length (inputs ?on)) (ReadPin GPIOB (button_pins ! b) GPIO_PIN_RESET)"
    by (elim exE conjE) (rule that)
  have res: "await_input g i w = Waiting w2"
    unfolding idle(1) using await_input_pressed [OF scan(1), of g i] wr(1) by simp
  have ev: "events w2 = events w @ (polls0 @ polls1) @
             [ReadPin GPIOB (button_pins ! b) GPIO_PIN_RESET,
              WritePin GPIOA (led_pins ! b) GPIO_PIN_SET, Delay GAME_SPEED_MS] @
             replicate (length hld) (ReadPin GPIOB (button_pins ! b) GPIO_PIN_RESET)"
    using wr(4) scan(2,5) idle(4) by simp
  have rd: "list_all is_read (polls0 @ polls1)" using idle(5) scan(4) by simp
  have "gpioa_odr w2 = gpioa_odr w OR led_pins ! b" using wr(3) scan(3) idle(3) by simp
  with res ev rd wr(2) show ?thesis by blast
qed

text \<open>Presses of the expected buttons carry the round through; a wrong one ends it.\<close>

lemma player_says_loop_presses:
  assumes "state g = PLAYER_SAYS" "current_level g < length (sequence g)"
    "list_all2 press_of (map (\<lambda>j. sequence g ! j) [i..<Suc (current_level g)]) ps"
    "inputs w = concat (map press_samples ps) @ rest"
  shows "\<exists>w'. player_says_loop i g w = Done g w' \<and> inputs w' = rest"
  using assms
proof (induction i g w arbitrary: ps rule: player_says_loop.induct)
  case (1 i g w)
  show ?case
  proof (cases "i \<le> current_level g")
    case False
    with "1.prems"(3) have "ps = []" by simp
    with False "1.prems"(4) show ?thesis by (subst player_says_loop.simps) simp
  next
    case True
    then have "[i..<Suc (current_level g)] = i # [i + 1..<Suc (current_level g)]"
      by (simp add: upt_conv_Cons del: upt_Suc)
    with "1.prems"(3) obtain p ps' where ps: "ps = p # ps'" "press_of (sequence g ! i) p"
      "list_all2 press_of (map (\<lambda>j. sequence g ! j) [i + 1..<Suc (current_level g)]) ps'"
      by (auto simp: list_all2_Cons1 simp del: upt_Suc)
    from True "1.prems"(2) have len: "i < length (sequence g)" by simp
    from ps(1) "1.prems"(4)
    have "inputs w = press_samples p @ (concat (map press_samples ps') @ rest)" by simp
    from await_input_press [OF ps(2) this len] obtain w1 where
      aw: "await_input g i w = Done g w1" "inputs w1 = concat (map press_samples ps') @ rest"
      by auto
    have keep: "\<not> state g \<noteq> PLAYER_SAYS" using "1.prems"(1) by simp
    from "1.IH" [OF True aw(1) keep "1.prems"(1,2) ps(3) aw(2)] True aw(1) keep
    show ?thesis by (subst player_says_loop.simps) simp
  qed
qed

lemma player_says_loop_wrong_press:
  assumes "state g = PLAYER_SAYS" "current_level g < length (sequence g)"
    "i \<le> k" "k \<le> current_level g"
    "list_all2 press_of (map (\<lambda>j. sequence g ! j) [i..<k]) ps"
    "press_of b q" "b \<noteq> sequence g ! k"
    "inputs w = concat (map press_samples ps) @ press_samples q @ rest"
  shows "\<exists>w'. player_says_loop i g w = Done (g\<lparr>state := GAME_OVER\<rparr>) w' \<and> inputs w' = rest"
  using assms
proof (induction i g w arbitrary: ps rule: player_says_loop.induct)
  case (1 i g w)
  from "1.prems"(3,4) have here: "i \<le> current_level g" by simp
  with "1.prems"(2) have len: "i < length (sequence g)" by simp
  show ?case
  proof (cases "i = k")
    case True
    with "1.prems"(5) have "ps = []" by simp
    with "1.prems"(8) have "inputs w = press_samples q @ rest" by simp
    from await_input_press [OF "1.prems"(6) this len] "1.prems"(7) True obtain w1 where
      aw: "await_input g i w = Done (g\<lparr>state := GAME_OVER\<rparr>) w1" "inputs w1 = rest"
      by auto
    with here show ?thesis by (subst player_says_loop.simps) simp
  next
    case False
    with "1.prems"(3) have lt: "i < k" by simp
    then have "[i..<k] = i # [i + 1..<k]" by (simp add: upt_conv_Cons)
    with "1.prems"(5) obtain p ps' where ps: "ps = p # ps'" "press_of (sequence g ! i) p"
      "list_all2 press_of (map (\<lambda>j. sequence g ! j) [i + 1..<k]) ps'"
      by (auto simp: list_all2_Cons1)
    from ps(1) "1.prems"(8)
    have "inputs w = press_samples p @
        (concat (map press_samples ps') @ press_samples q @ rest)"
      by simp
    from await_input_press [OF ps(2) this len] obtain w1 where
      aw: "await_input g i w = Done g w1"
        "inputs w1 = concat (map press_samples ps') @ press_samples q @ rest"
      by auto
    have keep: "\<not> state g \<noteq> PLAYER_SAYS" using "1.prems"(1) by simp
    have next_le: "i + 1 \<le> k" using lt by simp
    from "1.IH" [OF here aw(1) keep "1.prems"(1,2) next_le "1.prems"(4) ps(3) "1.prems"(6,7) aw(2)]
      here aw(1) keep
    show ?thesis by (subst player_says_loop.simps) simp
  qed
qed

text \<open>From the run to the samples: what a scan that returned has read.\<close>

lemma scan_buttons_shape:
  "scan_buttons i w = Done r w' \<Longrightarrow> i \<le> BUTTON_COUNT \<Longrightarrow>
     \<exists>xs. inputs w = xs @ inputs w' \<and>
       (if r < 0 then length xs = BUTTON_COUNT - i \<and>
                      (\<forall>j<BUTTON_COUNT - i. \<not> button_active (xs ! j) (i + j))
        else i \<le> nat r \<and> nat r < BUTTON_COUNT \<and> length xs = Suc (nat r) - i \<and>
             (\<forall>j<nat r - i. \<not> button_active (xs ! j) (i + j)) \<and>
             button_active (xs ! (nat r - i)) (nat r))"
proof (induction i w rule: scan_buttons.induct)
  case (1 i w)
  show ?case
  proof (cases "i < BUTTON_COUNT")
    case False
    with "1.prems" have "r = - 1" "w' = w" "i = BUTTON_COUNT"
      by (subst (asm) scan_buttons.simps; simp)+
    then show ?thesis by simp
  next
    case True
    then have pin: "array_get button_pins i = Some (button_pins ! i)"
      by (simp add: array_get_def button_pins_def BUTTON_COUNT_def)
    from "1.prems"(1) True pin obtain v w1 where
      rd: "HAL_GPIO_ReadPin GPIOB (button_pins ! i) w = Done v w1"
      by (subst (asm) scan_buttons.simps) (auto split: outcome.splits)
    from ReadPin_Done [OF rd] obtain s rest where s: "inputs w = s # rest"
      "v = pin_level (port_idr GPIOB s) (button_pins ! i)"
      "w1 = after_read GPIOB (button_pins ! i) s w"
      by auto
    from s(2) have act: "button_active s i \<longleftrightarrow> v = GPIO_PIN_RESET"
      by (simp add: button_active_def port_idr_def)
    show ?thesis
    proof (cases "v = GPIO_PIN_RESET")
      case T: True
      with "1.prems"(1) True pin rd have res: "w' = w1" "r = int i"
        by (subst (asm) scan_buttons.simps; simp)+
      with s have "inputs w = [s] @ inputs w'" by simp
      moreover have "button_active ([s] ! (nat r - i)) (nat r)" using res T act by simp
      ultimately show ?thesis using res True by (intro exI [of _ "[s]"]) simp
    next
      case F: False
      with "1.prems"(1) True pin rd have nxt: "scan_buttons (i + 1) w1 = Done r w'"
        by (subst (asm) scan_buttons.simps) auto
      from True have le: "i + 1 \<le> BUTTON_COUNT" by simp
      from "1.IH" [OF True pin rd F nxt le] obtain xs where
        ih: "inputs w1 = xs @ inputs w'"
          "if r < 0 then length xs = BUTTON_COUNT - (i + 1) \<and>
                      (\<forall>j<BUTTON_COUNT - (i + 1). \<not> button_active (xs ! j) (i + 1 + j))
           else i + 1 \<le> nat r \<and> nat r < BUTTON_COUNT \<and> length xs = Suc (nat r) - (i + 1) \<and>
             (\<forall>j<nat r - (i + 1). \<not> button_active (xs ! j) (i + 1 + j)) \<and>
             button_active (xs ! (nat r - (i + 1))) (nat r)"
        by blast
      have ins: "inputs w = (s # xs) @ inputs w'" using s ih(1) by simp
      have idle: "\<not> button_active s i" using act F by simp
      show ?thesis
      proof (cases "r < 0")
        case neg: True
        with ih(2) have len: "length xs = BUTTON_COUNT - (i + 1)"
          and rest: "\<forall>j<BUTTON_COUNT - (i + 1). \<not> button_active (xs ! j) (i + 1 + j)"
          by simp_all
        have "length (s # xs) = BUTTON_COUNT - i" using len True by simp
        moreover have "\<forall>j<BUTTON_COUNT - i. \<not> button_active ((s # xs) ! j) (i + j)"
        proof (intro allI impI)
          fix j assume j: "j < BUTTON_COUNT - i"
          show "\<not> button_active ((s # xs) ! j) (i + j)"
          proof (cases j)
            case 0
            with idle show ?thesis by simp
          next
            case (Suc j')
            with j have "j' < BUTTON_COUNT - (i + 1)" by simp
            with rest have "\<not> button_active (xs ! j') (i + 1 + j')" by blast
            with Suc show ?thesis by simp
          qed
        qed
        ultimately show ?thesis using ins neg by (intro exI [of _ "s # xs"]) simp
      next
        case pos: False
        with ih(2) have r: "i + 1 \<le> nat r" "nat r < BUTTON_COUNT"
          and len: "length xs = Suc (nat r) - (i + 1)"
          and rest: "\<forall>j<nat r - (i + 1). \<not> button_active (xs ! j) (i + 1 + j)"
          and found: "button_active (xs ! (nat r - (i + 1))) (nat r)"
          by simp_all
        have "length (s # xs) = Suc (nat r) - i" using len r by simp
        moreover have "\<forall>j<nat r - i. \<not> button_active ((s # xs) ! j) (i + j)"
        proof (intro allI impI)
          fix j assume j: "j < nat r - i"
          show "\<not> button_active ((s # xs) ! j) (i + j)"
          proof (cases j)
            case 0
            with idle show ?thesis by simp
          next
            case (Suc j')
            with j have "j' < nat r - (i + 1)" by simp
            with rest have "\<not> button_active (xs ! j') (i + 1 + j')" by blast
            with Suc show ?thesis by simp
          qed
        qed
        moreover from r(1) have "nat r - i = Suc (nat r - (i + 1))" by simp
        then have "button_active ((s # xs) ! (nat r - i)) (nat r)" using found by simp
        moreover have "i \<le> nat r" using r(1) by simp
        ultimately show ?thesis using ins pos r(2) by (intro exI [of _ "s # xs"]) simp
      qed
    qed
  qed
qed

lemma idle_scans_four:
  assumes "length xs = BUTTON_COUNT" "\<forall>j<BUTTON_COUNT. \<not> button_active (xs ! j) j"
  shows "idle_scans (xs @ ys) = idle_scans ys"
proof -
  from assms(1) obtain a b c d where xs: "xs = [a, b, c, d]"
    by (auto simp: BUTTON_COUNT_def numeral_eq_Suc length_Suc_conv)
  from assms(2) have "\<not> button_active (xs ! 0) 0" "\<not> button_active (xs ! 1) 1"
    "\<not> button_active (xs ! 2) 2" "\<not> button_active (xs ! 3) 3"
    by (simp_all add: BUTTON_COUNT_def)
  with xs show ?thesis by simp
qed

lemma GetPressedButtonIndex_shape:
  assumes "GetPressedButtonIndex w = Done r w'"
  shows "\<exists>xs. inputs w = xs @ inputs w' \<and>
           (if r < 0 then \<forall>ys. idle_scans (xs @ ys) = idle_scans ys
            else scan_finds (nat r) xs)"
proof -
  from assms have "scan_buttons 0 w = Done r w'" by (simp add: GetPressedButtonIndex_def)
  from scan_buttons_shape [OF this] obtain xs where
    xs: "inputs w = xs @ inputs w'"
      "if r < 0 then length xs = BUTTON_COUNT - 0 \<and>
                      (\<forall>j<BUTTON_COUNT - 0. \<not> button_active (xs ! j) (0 + j))
        else 0 \<le> nat r \<and> nat r < BUTTON_COUNT \<and> length xs = Suc (nat r) - 0 \<and>
             (\<forall>j<nat r - 0. \<not> button_active (xs ! j) (0 + j)) \<and>
             button_active (xs ! (nat r - 0)) (nat r)"
    by auto
  show ?thesis
  proof (cases "r < 0")
    case True
    with xs(2) have "\<forall>ys. idle_scans (xs @ ys) = idle_scans ys"
      by (simp add: idle_scans_four)
    with xs(1) True show ?thesis by auto
  next
    case False
    with xs(2) have "scan_finds (nat r) xs" by (simp add: scan_finds_def list_all_iff)
    with xs(1) False show ?thesis by auto
  qed
qed

text \<open>A position that returned has read exactly one press, and compared that button.\<close>

lemma await_input_shape:
  "await_input g i w = Done g' w' \<Longrightarrow>
     \<exists>b p polls. press_of b p \<and> inputs w = press_samples p @ inputs w' \<and>
       i < length (sequence g) \<and>
       g' = (if b = sequence g ! i then g else g\<lparr>state := GAME_OVER\<rparr>) \<and>
       list_all is_read polls \<and>
       events w' = events w @ polls @ [ReadPin GPIOB (button_pins ! b) GPIO_PIN_RESET] @
                     press_events b (length (held_reads p))"
proof (induction g i w rule: await_input.induct)
  case (1 g i w)
  show ?case
  proof (cases "GetPressedButtonIndex w")
    case (Done index w1)
    from GetPressedButtonIndex_Done [OF Done] obtain evs where
      scan: "index = - 1 \<or> (0 \<le> index \<and> nat index < BUTTON_COUNT)"
        "events w1 = events w @ evs" "list_all is_read evs"
      by blast
    from GetPressedButtonIndex_shape [OF Done] obtain xs where
      xs: "inputs w = xs @ inputs w1"
        "if index < 0 then \<forall>ys. idle_scans (xs @ ys) = idle_scans ys
         else scan_finds (nat index) xs"
      by blast
    show ?thesis
    proof (cases "0 \<le> index")
      case True
      let ?idx = "nat index"
      let ?on = "HAL_Delay GAME_SPEED_MS
                   (HAL_GPIO_WritePin GPIOA (led_pins ! ?idx) GPIO_PIN_SET w1)"
      from "1.prems" obtain u w2 expected where
        rel: "wait_release (button_pins ! ?idx) ?on = Done u w2"
        and exp: "array_get (sequence g) i = Some expected"
        and g': "g' = (if ?idx = expected then g else g\<lparr>state := GAME_OVER\<rparr>)"
        and w': "w' = HAL_Delay GAME_SPEED_MS
                        (HAL_GPIO_WritePin GPIOA (led_pins ! ?idx) GPIO_PIN_RESET w2)"
        unfolding await_input_pressed [OF Done True]
        by (auto split: outcome.splits option.splits)
      from exp have len: "i < length (sequence g)" and expected: "expected = sequence g ! i"
        by (auto simp: array_get_def split: if_splits)
      from wait_release_Done [OF rel] obtain hld r where
        wr: "inputs ?on = hld @ r # inputs w2"
          "\<forall>s\<in>set hld. pin_level (gpiob_idr s) (button_pins ! ?idx) = GPIO_PIN_RESET"
          "pin_level (gpiob_idr r) (button_pins ! ?idx) = GPIO_PIN_SET"
          "events w2 = events ?on @
             replicate (length hld) (ReadPin GPIOB (button_pins ! ?idx) GPIO_PIN_RESET) @
             [ReadPin GPIOB (button_pins ! ?idx) GPIO_PIN_SET]"
        by blast
      let ?p = "\<lparr>idle_polls = [], finding_scan = xs, held_reads = hld, release_read = r\<rparr>"
      from xs(2) True have finds: "scan_finds ?idx xs" by simp
      have "press_of ?idx ?p"
        using finds wr(2,3) by (simp add: press_of_def button_active_def list_all_iff)
      moreover have "inputs w = press_samples ?p @ inputs w'"
        using w' wr(1) xs(1) by (simp add: press_samples_def)
      moreover from scan_buttons_detect [of 0 w index w1] Done True obtain evs0 where
        "events w1 = events w @ evs0 @ [ReadPin GPIOB (button_pins ! ?idx) GPIO_PIN_RESET]"
        by (auto simp: GetPressedButtonIndex_def)
      with scan(2) have evs: "evs = evs0 @ [ReadPin GPIOB (button_pins ! ?idx) GPIO_PIN_RESET]"
        by simp
      with scan(3) have "list_all is_read evs0" by simp
      moreover have "events w' = events w @ evs0 @
          [ReadPin GPIOB (button_pins ! ?idx) GPIO_PIN_RESET] @
          press_events ?idx (length (held_reads ?p))"
        using w' wr(4) scan(2) evs by (simp add: press_events_def)
      moreover have "g' = (if ?idx = sequence g ! i then g else g\<lparr>state := GAME_OVER\<rparr>)"
        using g' expected by simp
      ultimately show ?thesis using len
        by (intro exI [of _ ?idx] exI [of _ ?p] exI [of _ evs0]) simp
    next
      case False
      with "1.prems" Done have "await_input g i w1 = Done g' w'"
        by (simp add: await_input_none)
      from "1.IH" [OF Done False this] obtain b p polls where
        ih: "press_of b p" "inputs w1 = press_samples p @ inputs w'"
          "i < length (sequence g)"
          "g' = (if b = sequence g ! i then g else g\<lparr>state := GAME_OVER\<rparr>)"
          "list_all is_read polls"
          "events w' = events w1 @ polls @ [ReadPin GPIOB (button_pins ! b) GPIO_PIN_RESET] @
                     press_events b (length (held_reads p))"
        by (elim exE conjE) (rule that)
      let ?p = "p\<lparr>idle_polls := xs @ idle_polls p\<rparr>"
      from xs(2) False have "idle_scans (xs @ idle_polls p) = idle_scans (idle_polls p)"
        by simp
      with ih(1) have "press_of b ?p" by (simp add: press_of_def)
      moreover have "inputs w = press_samples ?p @ inputs w'"
        using xs(1) ih(2) by (simp add: press_samples_def)
      moreover have "list_all is_read (evs @ polls)" using scan(3) ih(5) by simp
      moreover have "events w' = events w @ (evs @ polls) @
          [ReadPin GPIOB (button_pins ! b) GPIO_PIN_RESET] @
          press_events b (length (held_reads ?p))"
        using ih(6) scan(2) by simp
      ultimately show ?thesis using ih(3,4)
        by (intro exI [of _ b] exI [of _ ?p] exI [of _ "evs @ polls"]) simp
    qed
  next
    case (Waiting w1)
    with "1.prems" show ?thesis by (simp add: await_input_starved)
  next
    case Fault
    then show ?thesis by (simp add: GetPressedButtonIndex_not_Fault)
  qed
qed

lemma presses_one_press:
  assumes "b < BUTTON_COUNT" "list_all is_read polls"
  shows "presses (polls @ [ReadPin GPIOB pin v] @ press_events b n) = [b]"
proof -
  have "presses (ReadPin GPIOB pin v # press_events b n) = presses (press_events b n)"
    by (simp add: presses_def)
  moreover have "presses (press_events b n) = [b]"
    using assms(1) by (simp add: presses_press_events BUTTON_COUNT_def LED_COUNT_def)
  ultimately show ?thesis using assms(2) by (simp add: presses_reads)
qed

text \<open>A round that returned has read one press for every position it reached.\<close>

lemma player_says_loop_shape:
  "player_says_loop i g w = Done g' w' \<Longrightarrow> state g = PLAYER_SAYS \<Longrightarrow>
     \<exists>bs ps evs. list_all2 press_of bs ps \<and>
       inputs w = concat (map press_samples ps) @ inputs w' \<and>
       events w' = events w @ evs \<and> presses evs = bs \<and>
       ((g' = g \<and> (\<forall>j. i \<le> j \<and> j \<le> current_level g \<longrightarrow> j < length (sequence g)) \<and>
         bs = map (\<lambda>j. sequence g ! j) [i..<Suc (current_level g)]) \<or>
        (g' = g\<lparr>state := GAME_OVER\<rparr> \<and>
         (\<exists>k b. i \<le> k \<and> k \<le> current_level g \<and> k < length (sequence g) \<and>
            b \<noteq> sequence g ! k \<and> bs = map (\<lambda>j. sequence g ! j) [i..<k] @ [b])))"
proof (induction i g w rule: player_says_loop.induct)
  case (1 i g w)
  show ?case
  proof (cases "i \<le> current_level g")
    case False
    with "1.prems" have "g' = g" "w' = w"
      by (subst (asm) player_says_loop.simps; simp)+
    with False show ?thesis
      by (intro exI [of _ "[]"]) (simp add: presses_def)
  next
    case True
    with "1.prems" obtain g1 w1 where aw: "await_input g i w = Done g1 w1"
      by (subst (asm) player_says_loop.simps) (auto split: outcome.splits)
    from await_input_shape [OF aw] obtain b p polls where
      a: "press_of b p" "inputs w = press_samples p @ inputs w1" "i < length (sequence g)"
        "g1 = (if b = sequence g ! i then g else g\<lparr>state := GAME_OVER\<rparr>)"
        "list_all is_read polls"
        "events w1 = events w @ polls @ [ReadPin GPIOB (button_pins ! b) GPIO_PIN_RESET] @
                     press_events b (length (held_reads p))"
      by (elim exE conjE) (rule that)
    let ?here = "polls @ [ReadPin GPIOB (button_pins ! b) GPIO_PIN_RESET] @
                     press_events b (length (held_reads p))"
    from a(1) have "b < BUTTON_COUNT" by (simp add: press_of_def scan_finds_def)
    from presses_one_press [OF this a(5)] have here: "presses ?here = [b]" .
    show ?thesis
    proof (cases "b = sequence g ! i")
      case False
      with a(4) have g1: "g1 = g\<lparr>state := GAME_OVER\<rparr>" by simp
      with "1.prems" True aw have res: "g' = g\<lparr>state := GAME_OVER\<rparr>" "w' = w1"
        by (subst (asm) player_says_loop.simps; simp)+
      have "list_all2 press_of [b] [p]" using a(1) by simp
      moreover have "inputs w = concat (map press_samples [p]) @ inputs w'"
        using a(2) res(2) by simp
      moreover have "events w' = events w @ ?here" using a(6) res(2) by simp
      moreover have "[b] = map (\<lambda>j. sequence g ! j) [i..<i] @ [b]" by simp
      ultimately show ?thesis using res(1) here True a(3) False
        by (intro exI [of _ "[b]"] exI [of _ "[p]"] exI [of _ ?here]) blast
    next
      case same: True
      with a(4) have g1: "g1 = g" by simp
      with "1.prems" True aw have rec: "player_says_loop (i + 1) g w1 = Done g' w'"
        by (subst (asm) player_says_loop.simps) simp
      have keep: "\<not> state g1 \<noteq> PLAYER_SAYS" using g1 "1.prems"(2) by simp
      from "1.IH" [OF True aw keep, unfolded g1, OF rec "1.prems"(2)] obtain bs ps evs where
        ih: "list_all2 press_of bs ps" "inputs w1 = concat (map press_samples ps) @ inputs w'"
          "events w' = events w1 @ evs" "presses evs = bs"
          "(g' = g \<and> (\<forall>j. i + 1 \<le> j \<and> j \<le> current_level g \<longrightarrow> j < length (sequence g)) \<and>
             bs = map (\<lambda>j. sequence g ! j) [i + 1..<Suc (current_level g)]) \<or>
           (g' = g\<lparr>state := GAME_OVER\<rparr> \<and>
            (\<exists>k b. i + 1 \<le> k \<and> k \<le> current_level g \<and> k < length (sequence g) \<and>
               b \<noteq> sequence g ! k \<and> bs = map (\<lambda>j. sequence g ! j) [i + 1..<k] @ [b]))"
        by (elim exE conjE) (rule that)
      have all: "list_all2 press_of (b # bs) (p # ps)" using a(1) ih(1) by simp
      have ins: "inputs w = concat (map press_samples (p # ps)) @ inputs w'"
        using a(2) ih(2) by simp
      have ev: "events w' = events w @ (?here @ evs)" using a(6) ih(3) by simp
      have pr: "presses (?here @ evs) = b # bs"
        using here ih(4) by (simp only: presses_append) simp
      from ih(5) have "(g' = g \<and> (\<forall>j. i \<le> j \<and> j \<le> current_level g \<longrightarrow> j < length (sequence g)) \<and>
         b # bs = map (\<lambda>j. sequence g ! j) [i..<Suc (current_level g)]) \<or>
        (g' = g\<lparr>state := GAME_OVER\<rparr> \<and>
         (\<exists>k b'. i \<le> k \<and> k \<le> current_level g \<and> k < length (sequence g) \<and>
            b' \<noteq> sequence g ! k \<and> b # bs = map (\<lambda>j. sequence g ! j) [i..<k] @ [b']))"
      proof
        assume ok: "g' = g \<and> (\<forall>j. i + 1 \<le> j \<and> j \<le> current_level g \<longrightarrow> j < length (sequence g)) \<and>
             bs = map (\<lambda>j. sequence g ! j) [i + 1..<Suc (current_level g)]"
        then have "b # bs = map (\<lambda>j. sequence g ! j) [i..<Suc (current_level g)]"
          using same True by (simp add: upt_conv_Cons del: upt_Suc)
        moreover have "\<forall>j. i \<le> j \<and> j \<le> current_level g \<longrightarrow> j < length (sequence g)"
          using ok a(3) by (metis Suc_eq_plus1 Suc_leI le_neq_implies_less)
        ultimately show ?thesis using ok by blast
      next
        assume "g' = g\<lparr>state := GAME_OVER\<rparr> \<and>
            (\<exists>k b. i + 1 \<le> k \<and> k \<le> current_level g \<and> k < length (sequence g) \<and>
               b \<noteq> sequence g ! k \<and> bs = map (\<lambda>j. sequence g ! j) [i + 1..<k] @ [b])"
        then obtain k b' where
          bad: "g' = g\<lparr>state := GAME_OVER\<rparr>" "i + 1 \<le> k" "k \<le> current_level g"
            "k < length (sequence g)" "b' \<noteq> sequence g ! k"
            "bs = map (\<lambda>j. sequence g ! j) [i + 1..<k] @ [b']"
          by blast
        have "b # bs = map (\<lambda>j. sequence g ! j) [i..<k] @ [b']"
          using same bad(2,6) by (simp add: upt_conv_Cons)
        moreover have "i \<le> k" using bad(2) by simp
        ultimately show ?thesis using bad(1,3,4,5) by blast
      qed
      with all ins ev pr show ?thesis
        by (intro exI [of _ "b # bs"] exI [of _ "p # ps"] exI [of _ "?here @ evs"]) blast
    qed
  qed
qed

text \<open>
  A press told without the scan in mind, as the player sees it: for some time no button
  is down, then button \<open>b\<close> and no other is down, then \<open>b\<close> is up again. \<open>hold_of b h\<close>
  says that \<open>h\<close> is such a hold of \<open>b\<close> that lasts for at least two scans' worth of
  reads. It may start at any read of a scan. Such samples are a press of \<open>b\<close> in the
  sense above: the scan under way when the hold starts either reaches \<open>b\<close> or ends
  with nothing found, and then the next one finds \<open>b\<close>. (A shorter hold can fall
  between two reads of its pin.)
\<close>

definition none_active :: "sample \<Rightarrow> bool" where
  "none_active s = list_all (\<lambda>j. \<not> button_active s j) [0..<BUTTON_COUNT]"

definition only_active :: "nat \<Rightarrow> sample \<Rightarrow> bool" where
  "only_active b s = list_all (\<lambda>j. button_active s j = (j = b)) [0..<BUTTON_COUNT]"

record button_hold =
  nothing_down :: "sample list"
  button_down :: "sample list"
  button_up :: sample

definition hold_samples :: "button_hold \<Rightarrow> sample list" where
  "hold_samples h = nothing_down h @ button_down h @ [button_up h]"

definition hold_of :: "nat \<Rightarrow> button_hold \<Rightarrow> bool" where
  "hold_of b h =
     (b < BUTTON_COUNT \<and> list_all none_active (nothing_down h) \<and>
      list_all (only_active b) (button_down h) \<and> 2 * BUTTON_COUNT \<le> length (button_down h) \<and>
      \<not> button_active (button_up h) b)"

lemma none_activeD: "none_active s \<Longrightarrow> j < BUTTON_COUNT \<Longrightarrow> \<not> button_active s j"
  by (simp add: none_active_def list_all_iff)

lemma only_activeD: "only_active b s \<Longrightarrow> j < BUTTON_COUNT \<Longrightarrow> button_active s j = (j = b)"
  by (simp add: only_active_def list_all_iff)

lemma press_within_a_scan:
  assumes "b < BUTTON_COUNT" "list_all none_active quiet" "length quiet < BUTTON_COUNT"
    "list_all (only_active b) hold" "2 * BUTTON_COUNT \<le> length hold" "\<not> button_active r b"
  shows "\<exists>p. press_of b p \<and> press_samples p = quiet @ hold @ [r] \<and>
           length (held_reads p) \<le> length hold"
proof (cases "length quiet \<le> b")
  case True
  let ?n = "Suc b - length quiet"
  let ?p = "\<lparr>idle_polls = [], finding_scan = quiet @ take ?n hold,
             held_reads = drop ?n hold, release_read = r\<rparr>"
  from assms(1,5) True have n: "?n \<le> length hold" by (simp add: BUTTON_COUNT_def)
  have len: "length (quiet @ take ?n hold) = Suc b" using n True by simp
  have idle: "\<not> button_active ((quiet @ take ?n hold) ! j) j" if j: "j < b" for j
  proof (cases "j < length quiet")
    case T: True
    with assms(2) have "none_active (quiet ! j)" by (simp add: list_all_length)
    from none_activeD [OF this] j assms(1) T show ?thesis by (simp add: nth_append)
  next
    case False
    with j n have "j - length quiet < length hold" by simp
    with assms(4) have "only_active b (hold ! (j - length quiet))" by (simp add: list_all_length)
    from only_activeD [OF this, of j] j assms(1) False show ?thesis by (simp add: nth_append)
  qed
  have "b - length quiet < length hold" using n True by arith
  with assms(4) have "only_active b (hold ! (b - length quiet))" by (simp add: list_all_length)
  from only_activeD [OF this assms(1)] True
  have found: "button_active ((quiet @ take ?n hold) ! b) b"
    by (cases "b = length quiet") (simp_all add: nth_append)
  have "scan_finds b (quiet @ take ?n hold)"
    unfolding scan_finds_def using assms(1) len idle found by (simp add: list_all_iff)
  moreover have "list_all (\<lambda>s. button_active s b) (drop ?n hold)"
    using assms(1,4) by (auto simp: list_all_iff dest!: in_set_dropD dest: only_activeD)
  ultimately have "press_of b ?p" using assms(6) by (simp add: press_of_def)
  moreover have "press_samples ?p = quiet @ hold @ [r]" by (simp add: press_samples_def)
  moreover have "length (held_reads ?p) \<le> length hold" by simp
  ultimately show ?thesis by blast
next
  case False
  then have lt: "b < length quiet" by simp
  let ?m = "BUTTON_COUNT - length quiet"
  let ?n = "?m + Suc b"
  let ?scan = "quiet @ take ?m hold"
  let ?p = "\<lparr>idle_polls = ?scan, finding_scan = take (Suc b) (drop ?m hold),
             held_reads = drop ?n hold, release_read = r\<rparr>"
  from assms(1,3,5) have n: "?n \<le> length hold" by (simp add: BUTTON_COUNT_def)
  have len: "length ?scan = BUTTON_COUNT" using n assms(3) by simp
  have "\<not> button_active (?scan ! j) j" if j: "j < BUTTON_COUNT" for j
  proof (cases "j < length quiet")
    case T: True
    with assms(2) have "none_active (quiet ! j)" by (simp add: list_all_length)
    from none_activeD [OF this j] T show ?thesis by (simp add: nth_append)
  next
    case F: False
    with j n have "j - length quiet < length hold" by simp
    with assms(4) have "only_active b (hold ! (j - length quiet))" by (simp add: list_all_length)
    from only_activeD [OF this j] F lt j show ?thesis by (simp add: nth_append)
  qed
  with len idle_scans_four [of ?scan "[]"] have idle: "idle_scans ?scan" by simp
  have flen: "length (take (Suc b) (drop ?m hold)) = Suc b" using n by simp
  have fidle: "\<not> button_active (take (Suc b) (drop ?m hold) ! j) j" if j: "j < b" for j
  proof -
    from j n have "?m + j < length hold" by simp
    with assms(4) have "only_active b (hold ! (?m + j))" by (simp add: list_all_length)
    from only_activeD [OF this, of j] j assms(1) n show ?thesis by simp
  qed
  from n have "?m + b < length hold" by simp
  with assms(4) have "only_active b (hold ! (?m + b))" by (simp add: list_all_length)
  from only_activeD [OF this assms(1)] n
  have found: "button_active (take (Suc b) (drop ?m hold) ! b) b" by simp
  have "scan_finds b (take (Suc b) (drop ?m hold))"
    unfolding scan_finds_def using assms(1) flen fidle found by (simp add: list_all_iff)
  moreover have "list_all (\<lambda>s. button_active s b) (drop ?n hold)"
    using assms(1,4) by (auto simp: list_all_iff dest!: in_set_dropD dest: only_activeD)
  ultimately have "press_of b ?p" using assms(6) idle by (simp add: press_of_def)
  moreover have "take ?m hold @ take (Suc b) (drop ?m hold) @ drop ?n hold = hold"
    by (metis append_take_drop_id drop_drop add.commute)
  then have "press_samples ?p = quiet @ hold @ [r]" by (simp add: press_samples_def)
  moreover have "length (held_reads ?p) \<le> length hold" by simp
  ultimately show ?thesis by blast
qed

lemma press_at_any_time:
  assumes "b < BUTTON_COUNT" "list_all none_active quiet"
    "list_all (only_active b) hold" "2 * BUTTON_COUNT \<le> length hold" "\<not> button_active r b"
  shows "\<exists>p. press_of b p \<and> press_samples p = quiet @ hold @ [r] \<and>
           length (held_reads p) \<le> length hold"
  using assms(2)
proof (induction quiet rule: idle_scans.induct)
  case (2 a0 a1 a2 a3 xs)
  then have rest: "list_all none_active xs" and here: "none_active a0" "none_active a1"
    "none_active a2" "none_active a3"
    by simp_all
  from "2.IH" [OF rest] obtain p where
    p: "press_of b p" "press_samples p = xs @ hold @ [r]"
      "length (held_reads p) \<le> length hold"
    by blast
  let ?p = "p\<lparr>idle_polls := [a0, a1, a2, a3] @ idle_polls p\<rparr>"
  have "\<not> button_active a0 0" "\<not> button_active a1 1" "\<not> button_active a2 2"
    "\<not> button_active a3 3"
    using here by (simp_all add: none_activeD BUTTON_COUNT_def)
  with p(1) have "press_of b ?p" by (simp add: press_of_def)
  moreover have "press_samples ?p = (a0 # a1 # a2 # a3 # xs) @ hold @ [r]"
    using p(2) by (simp add: press_samples_def)
  ultimately show ?case using p(3) by (intro exI [of _ ?p]) simp
qed (rule press_within_a_scan [OF assms(1) _ _ assms(3,4,5)]; simp add: BUTTON_COUNT_def)+

lemma hold_is_press:
  assumes "hold_of b h"
  shows "\<exists>p. press_of b p \<and> press_samples p = hold_samples h \<and>
           length (held_reads p) \<le> length (button_down h)"
  using assms press_at_any_time [of b "nothing_down h" "button_down h" "button_up h"]
  by (simp add: hold_of_def hold_samples_def)

lemma holds_are_presses:
  "list_all2 hold_of bs hs \<Longrightarrow>
     \<exists>ps. list_all2 press_of bs ps \<and>
       concat (map press_samples ps) = concat (map hold_samples hs)"
proof (induction rule: list_all2_induct)
  case Nil
  then show ?case by simp
next
  case (Cons b bs h hs)
  from hold_is_press [OF Cons.hyps(1)] obtain p where
    p: "press_of b p" "press_samples p = hold_samples h"
    by blast
  from Cons.IH obtain ps where
    ps: "list_all2 press_of bs ps" "concat (map press_samples ps) = concat (map hold_samples hs)"
    by blast
  from p ps have "list_all2 press_of (b # bs) (p # ps)"
    "concat (map press_samples (p # ps)) = concat (map hold_samples (h # hs))"
    by simp_all
  then show ?case by blast
qed

subsection \<open>The player's round\<close>

lemma take_as_map_nth: "n \<le> length xs \<Longrightarrow> map (\<lambda>j. xs ! j) [0..<n] = take n xs"
  by (rule nth_equalityI) simp_all

lemma step_PLAYER_SAYS:
  assumes "state g = PLAYER_SAYS" "step eng g w = Done g' w'"
  shows "\<exists>g1. player_says_loop 0 g w = Done g1 w' \<and>
           g' = (if state g1 = PLAYER_SAYS then
                   (if current_level g1 = MAX_LEVEL - 1 then g1\<lparr>state := WIN\<rparr>
                    else g1\<lparr>current_level := (current_level g1 + 1) mod 256,
                             state := SIMON_SAYS\<rparr>)
                 else g1)"
  using assms by (auto simp: step_def split: outcome.splits if_splits)

text \<open>A round that ended: either every press matched, or a matched prefix was followed by
  one wrong press and nothing else.\<close>

lemma player_round:
  assumes "state g = PLAYER_SAYS" "step eng g w = Done g' w'"
  shows "\<exists>evs. events w' = events w @ evs \<and>
     ((Suc (current_level g) \<le> length (sequence g) \<and>
       presses evs = take (Suc (current_level g)) (sequence g) \<and>
       g' = (if current_level g = MAX_LEVEL - 1 then g\<lparr>state := WIN\<rparr>
             else g\<lparr>current_level := (current_level g + 1) mod 256, state := SIMON_SAYS\<rparr>)) \<or>
      (g' = g\<lparr>state := GAME_OVER\<rparr> \<and>
       (\<exists>k p n evs0. k \<le> current_level g \<and> k < length (sequence g) \<and> p < BUTTON_COUNT \<and>
          p \<noteq> sequence g ! k \<and> evs = evs0 @ press_events p n \<and>
          presses evs0 = take k (sequence g))))"
proof -
  from step_PLAYER_SAYS [OF assms] obtain g1 where
    loop: "player_says_loop 0 g w = Done g1 w'"
    and g': "g' = (if state g1 = PLAYER_SAYS then
                   (if current_level g1 = MAX_LEVEL - 1 then g1\<lparr>state := WIN\<rparr>
                    else g1\<lparr>current_level := (current_level g1 + 1) mod 256,
                             state := SIMON_SAYS\<rparr>)
                 else g1)"
    by blast
  from player_says_loop_Done [OF loop assms(1)] obtain evs where
    ev: "events w' = events w @ evs"
    and alt: "(g1 = g \<and> (\<forall>j. 0 \<le> j \<and> j \<le> current_level g \<longrightarrow> j < length (sequence g)) \<and>
         presses evs = map (\<lambda>j. sequence g ! j) [0..<Suc (current_level g)]) \<or>
        (g1 = g\<lparr>state := GAME_OVER\<rparr> \<and>
         (\<exists>k p n evs0. 0 \<le> k \<and> k \<le> current_level g \<and> k < length (sequence g) \<and>
            p < BUTTON_COUNT \<and> p \<noteq> sequence g ! k \<and> evs = evs0 @ press_events p n \<and>
            presses evs0 = map (\<lambda>j. sequence g ! j) [0..<k]))"
    by (elim exE conjE) (rule that)
  from alt show ?thesis
  proof
    assume ok: "g1 = g \<and> (\<forall>j. 0 \<le> j \<and> j \<le> current_level g \<longrightarrow> j < length (sequence g)) \<and>
         presses evs = map (\<lambda>j. sequence g ! j) [0..<Suc (current_level g)]"
    then have len: "Suc (current_level g) \<le> length (sequence g)"
      by (simp add: Suc_le_eq)
    with ok have "presses evs = take (Suc (current_level g)) (sequence g)"
      by (simp only: take_as_map_nth)
    moreover have "g' = (if current_level g = MAX_LEVEL - 1 then g\<lparr>state := WIN\<rparr>
             else g\<lparr>current_level := (current_level g + 1) mod 256, state := SIMON_SAYS\<rparr>)"
      using g' ok assms(1) by simp
    ultimately show ?thesis using ev len by blast
  next
    assume "g1 = g\<lparr>state := GAME_OVER\<rparr> \<and>
         (\<exists>k p n evs0. 0 \<le> k \<and> k \<le> current_level g \<and> k < length (sequence g) \<and>
            p < BUTTON_COUNT \<and> p \<noteq> sequence g ! k \<and> evs = evs0 @ press_events p n \<and>
            presses evs0 = map (\<lambda>j. sequence g ! j) [0..<k])"
    then obtain k p n evs0 where
      bad: "g1 = g\<lparr>state := GAME_OVER\<rparr>" "k \<le> current_level g" "k < length (sequence g)"
        "p < BUTTON_COUNT" "p \<noteq> sequence g ! k" "evs = evs0 @ press_events p n"
        "presses evs0 = map (\<lambda>j. sequence g ! j) [0..<k]"
      by blast
    from bad(3,7) have "presses evs0 = take k (sequence g)"
      by (simp only: take_as_map_nth)
    moreover from g' bad(1) have "g' = g\<lparr>state := GAME_OVER\<rparr>" by simp
    ultimately show ?thesis using ev bad(2-6) by blast
  qed
qed

text \<open>A matched prefix followed by a wrong press is not the expected round.\<close>

lemma wrong_press_differs:
  assumes "k \<le> c" "k < length xs" "p \<noteq> xs ! k"
  shows "take k xs @ [p] \<noteq> take (Suc c) xs"
proof
  assume eq: "take k xs @ [p] = take (Suc c) xs"
  then have "(take k xs @ [p]) ! k = take (Suc c) xs ! k" by simp
  moreover have "(take k xs @ [p]) ! k = p"
    using assms(2) by (simp add: nth_append)
  moreover have "take (Suc c) xs ! k = xs ! k"
    using assms(1) by simp
  ultimately show False using assms(3) by simp
qed

lemma presses_wrong_press:
  assumes "p < BUTTON_COUNT" "presses evs0 = take k xs"
  shows "presses (evs0 @ press_events p n) = take k xs @ [p]"
  using assms by (simp add: presses_press_events BUTTON_COUNT_def LED_COUNT_def)

text \<open>
  Inputs for worked examples: a sample with nothing pressed, a sample with button \<open>i\<close>
  held, a tap of button \<open>i\<close> (held through the scan and one more read, then released),
  the engine of the spec's scenarios, whose draws are 2, 0, 3, 1, 2, and the game at the
  start of the player's turn of a given level of that session.
\<close>

definition released :: sample where
  "released = \<lparr>uptime = 0, gpioa_idr = 0xFFFF, gpiob_idr = 0xFFFF\<rparr>"

definition holding :: "nat \<Rightarrow> sample" where
  "holding i = \<lparr>uptime = 0, gpioa_idr = 0xFFFF, gpiob_idr = 0xFFFF XOR button_pins ! i\<rparr>"

definition tap :: "nat \<Rightarrow> sample list" where
  "tap i = replicate (i + 2) (holding i) @ [released]"

definition scenario_engine :: engine where
  "scenario_engine s k = [2, 0, 3, 1, 2] ! (k mod 5)"

definition round_game :: "nat \<Rightarrow> game" where
  "round_game level = \<lparr>state = PLAYER_SAYS, sequence = [2, 0, 3, 1, 2], current_level = level,
                        generator = generator_seed 0\<rparr>"

text \<open>The round in GAME_OVER, told by what the log ends with.\<close>

lemma round_mismatch:
  assumes "state g = PLAYER_SAYS" "step eng g w = Done g' w'"
  shows "\<exists>evs. events w' = events w @ evs \<and>
     (state g' = GAME_OVER \<longleftrightarrow>
        (\<exists>k p n evs0. k \<le> current_level g \<and> k < length (sequence g) \<and> p < BUTTON_COUNT \<and>
           p \<noteq> sequence g ! k \<and> presses evs0 = take k (sequence g) \<and>
           evs = evs0 @ press_events p n)) \<and>
     (state g' = GAME_OVER \<longrightarrow> g' = g\<lparr>state := GAME_OVER\<rparr>)"
proof -
  from player_round [OF assms] obtain evs where
    ev: "events w' = events w @ evs"
    and alt: "(Suc (current_level g) \<le> length (sequence g) \<and>
       presses evs = take (Suc (current_level g)) (sequence g) \<and>
       g' = (if current_level g = MAX_LEVEL - 1 then g\<lparr>state := WIN\<rparr>
             else g\<lparr>current_level := (current_level g + 1) mod 256, state := SIMON_SAYS\<rparr>)) \<or>
      (g' = g\<lparr>state := GAME_OVER\<rparr> \<and>
       (\<exists>k p n evs0. k \<le> current_level g \<and> k < length (sequence g) \<and> p < BUTTON_COUNT \<and>
          p \<noteq> sequence g ! k \<and> evs = evs0 @ press_events p n \<and>
          presses evs0 = take k (sequence g)))"
    by (elim exE conjE) (rule that)
  let ?wrong = "\<exists>k p n evs0. k \<le> current_level g \<and> k < length (sequence g) \<and>
           p < BUTTON_COUNT \<and> p \<noteq> sequence g ! k \<and> presses evs0 = take k (sequence g) \<and>
           evs = evs0 @ press_events p n"
  from alt show ?thesis
  proof
    assume ok: "Suc (current_level g) \<le> length (sequence g) \<and>
       presses evs = take (Suc (current_level g)) (sequence g) \<and>
       g' = (if current_level g = MAX_LEVEL - 1 then g\<lparr>state := WIN\<rparr>
             else g\<lparr>current_level := (current_level g + 1) mod 256, state := SIMON_SAYS\<rparr>)"
    then have st: "state g' \<noteq> GAME_OVER" by simp
    have "\<not> ?wrong"
    proof
      assume ?wrong
      then obtain k p n evs0 where
        bad: "k \<le> current_level g" "k < length (sequence g)"
          "p < BUTTON_COUNT" "p \<noteq> sequence g ! k" "presses evs0 = take k (sequence g)"
          "evs = evs0 @ press_events p n"
        by blast
      have "presses evs = take k (sequence g) @ [p]"
        unfolding bad(6) using bad(3,5) by (rule presses_wrong_press)
      with wrong_press_differs [OF bad(1,2,4)] ok show False by simp
    qed
    with st ev show ?thesis by (intro exI [of _ evs]) simp
  next
    assume bad: "g' = g\<lparr>state := GAME_OVER\<rparr> \<and>
       (\<exists>k p n evs0. k \<le> current_level g \<and> k < length (sequence g) \<and> p < BUTTON_COUNT \<and>
          p \<noteq> sequence g ! k \<and> evs = evs0 @ press_events p n \<and>
          presses evs0 = take k (sequence g))"
    then have st: "state g' = GAME_OVER" "g' = g\<lparr>state := GAME_OVER\<rparr>" by simp_all
    from bad have ?wrong by blast
    with st ev show ?thesis by (intro exI [of _ evs]) simp
  qed
qed

text \<open>
  The same outcomes told from the samples: a round that ended has read exactly the
  samples of a run of presses, one press per position it reached, and the log shows the
  same presses.
\<close>

lemma round_inputs:
  assumes "state g = PLAYER_SAYS" "step eng g w = Done g' w'"
  shows "\<exists>bs ps evs. list_all2 press_of bs ps \<and>
       inputs w = concat (map press_samples ps) @ inputs w' \<and>
       events w' = events w @ evs \<and> presses evs = bs \<and>
       ((Suc (current_level g) \<le> length (sequence g) \<and>
         bs = take (Suc (current_level g)) (sequence g) \<and>
         g' = (if current_level g = MAX_LEVEL - 1 then g\<lparr>state := WIN\<rparr>
               else g\<lparr>current_level := (current_level g + 1) mod 256, state := SIMON_SAYS\<rparr>)) \<or>
        (g' = g\<lparr>state := GAME_OVER\<rparr> \<and>
         (\<exists>k b. k \<le> current_level g \<and> k < length (sequence g) \<and> b \<noteq> sequence g ! k \<and>
            bs = take k (sequence g) @ [b])))"
proof -
  from step_PLAYER_SAYS [OF assms] obtain g1 where
    loop: "player_says_loop 0 g w = Done g1 w'"
    and g': "g' = (if state g1 = PLAYER_SAYS then
                   (if current_level g1 = MAX_LEVEL - 1 then g1\<lparr>state := WIN\<rparr>
                    else g1\<lparr>current_level := (current_level g1 + 1) mod 256,
                             state := SIMON_SAYS\<rparr>)
                 else g1)"
    by blast
  from player_says_loop_shape [OF loop assms(1)] obtain bs ps evs where
    sh: "list_all2 press_of bs ps" "inputs w = concat (map press_samples ps) @ inputs w'"
      "events w' = events w @ evs" "presses evs = bs"
    and alt: "(g1 = g \<and> (\<forall>j. 0 \<le> j \<and> j \<le> current_level g \<longrightarrow> j < length (sequence g)) \<and>
         bs = map (\<lambda>j. sequence g ! j) [0..<Suc (current_level g)]) \<or>
        (g1 = g\<lparr>state := GAME_OVER\<rparr> \<and>
         (\<exists>k b. 0 \<le> k \<and> k \<le> current_level g \<and> k < length (sequence g) \<and>
            b \<noteq> sequence g ! k \<and> bs = map (\<lambda>j. sequence g ! j) [0..<k] @ [b]))"
    by (elim exE conjE) (rule that)
  from alt have "(Suc (current_level g) \<le> length (sequence g) \<and>
         bs = take (Suc (current_level g)) (sequence g) \<and>
         g' = (if current_level g = MAX_LEVEL - 1 then g\<lparr>state := WIN\<rparr>
               else g\<lparr>current_level := (current_level g + 1) mod 256, state := SIMON_SAYS\<rparr>)) \<or>
        (g' = g\<lparr>state := GAME_OVER\<rparr> \<and>
         (\<exists>k b. k \<le> current_level g \<and> k < length (sequence g) \<and> b \<noteq> sequence g ! k \<and>
            bs = take k (sequence g) @ [b]))"
  proof
    assume ok: "g1 = g \<and> (\<forall>j. 0 \<le> j \<and> j \<le> current_level g \<longrightarrow> j < length (sequence g)) \<and>
         bs = map (\<lambda>j. sequence g ! j) [0..<Suc (current_level g)]"
    then have len: "Suc (current_level g) \<le> length (sequence g)"
      by (simp add: Suc_le_eq)
    with ok have "bs = take (Suc (current_level g)) (sequence g)"
      by (simp only: take_as_map_nth)
    moreover have "g' = (if current_level g = MAX_LEVEL - 1 then g\<lparr>state := WIN\<rparr>
             else g\<lparr>current_level := (current_level g + 1) mod 256, state := SIMON_SAYS\<rparr>)"
      using g' ok assms(1) by simp
    ultimately show ?thesis using len by blast
  next
    assume "g1 = g\<lparr>state := GAME_OVER\<rparr> \<and>
         (\<exists>k b. 0 \<le> k \<and> k \<le> current_level g \<and> k < length (sequence g) \<and>
            b \<noteq> sequence g ! k \<and> bs = map (\<lambda>j. sequence g ! j) [0..<k] @ [b])"
    then obtain k b where
      bad: "g1 = g\<lparr>state := GAME_OVER\<rparr>" "k \<le> current_level g" "k < length (sequence g)"
        "b \<noteq> sequence g ! k" "bs = map (\<lambda>j. sequence g ! j) [0..<k] @ [b]"
      by blast
    from bad(3,5) have "bs = take k (sequence g) @ [b]"
      by (simp only: take_as_map_nth less_imp_le)
    moreover from g' bad(1) have "g' = g\<lparr>state := GAME_OVER\<rparr>" by simp
    ultimately show ?thesis using bad(2-4) by blast
  qed
  with sh show ?thesis by blast
qed

lemma round_lost_inputs:
  assumes "state g = PLAYER_SAYS" "step eng g w = Done g' w'" "state g' = GAME_OVER"
  shows "\<exists>k ps b q. k \<le> current_level g \<and> k < length (sequence g) \<and>
           list_all2 press_of (take k (sequence g)) ps \<and> press_of b q \<and>
           b \<noteq> sequence g ! k \<and>
           inputs w = concat (map press_samples ps) @ press_samples q @ inputs w'"
proof -
  from round_inputs [OF assms(1,2)] obtain bs ps where
    sh: "list_all2 press_of bs ps" "inputs w = concat (map press_samples ps) @ inputs w'"
    and alt: "(Suc (current_level g) \<le> length (sequence g) \<and>
         bs = take (Suc (current_level g)) (sequence g) \<and>
         g' = (if current_level g = MAX_LEVEL - 1 then g\<lparr>state := WIN\<rparr>
               else g\<lparr>current_level := (current_level g + 1) mod 256, state := SIMON_SAYS\<rparr>)) \<or>
        (g' = g\<lparr>state := GAME_OVER\<rparr> \<and>
         (\<exists>k b. k \<le> current_level g \<and> k < length (sequence g) \<and> b \<noteq> sequence g ! k \<and>
            bs = take k (sequence g) @ [b]))"
    by (elim exE conjE) (rule that)
  from alt assms(3) obtain k b where
    bad: "k \<le> current_level g" "k < length (sequence g)" "b \<noteq> sequence g ! k"
      "bs = take k (sequence g) @ [b]"
    by (auto split: if_splits)
  from sh(1) bad(4) obtain ps0 q where
    ps: "ps = ps0 @ [q]" "list_all2 press_of (take k (sequence g)) ps0" "press_of b q"
    by (auto simp: list_all2_append1 list_all2_Cons1)
  from sh(2) ps(1)
  have "inputs w = concat (map press_samples ps0) @ press_samples q @ inputs w'" by simp
  with bad(1,2,3) ps(2,3) show ?thesis by blast
qed

text \<open>And the other way round: such presses as inputs make the round end.\<close>

lemma presses_of_take:
  assumes "n \<le> length xs" "list_all2 press_of (take n xs) ps"
  shows "list_all2 press_of (map (\<lambda>j. xs ! j) [0..<n]) ps"
  using assms by (simp only: take_as_map_nth)

lemma round_matched:
  assumes "state g = PLAYER_SAYS" "current_level g < length (sequence g)"
    "list_all2 press_of (take (Suc (current_level g)) (sequence g)) ps"
    "inputs w = concat (map press_samples ps) @ rest"
  shows "\<exists>w1. step eng g w =
           Done (if current_level g = MAX_LEVEL - 1 then g\<lparr>state := WIN\<rparr>
                 else g\<lparr>current_level := (current_level g + 1) mod 256,
                        state := SIMON_SAYS\<rparr>) w1 \<and>
           inputs w1 = rest"
proof -
  from assms(2) have "Suc (current_level g) \<le> length (sequence g)" by simp
  from presses_of_take [OF this assms(3)]
  have "list_all2 press_of (map (\<lambda>j. sequence g ! j) [0..<Suc (current_level g)]) ps" .
  from player_says_loop_presses [OF assms(1,2) this assms(4)] obtain w1 where
    "player_says_loop 0 g w = Done g w1" "inputs w1 = rest"
    by blast
  with assms(1) show ?thesis by (simp add: step_def)
qed

lemma round_lost:
  assumes "state g = PLAYER_SAYS" "current_level g < length (sequence g)"
    "k \<le> current_level g" "list_all2 press_of (take k (sequence g)) ps"
    "press_of b q" "b \<noteq> sequence g ! k"
    "inputs w = concat (map press_samples ps) @ press_samples q @ rest"
  shows "\<exists>w1. step eng g w = Done (g\<lparr>state := GAME_OVER\<rparr>) w1 \<and> inputs w1 = rest"
proof -
  from assms(2,3) have "k \<le> length (sequence g)" by simp
  from presses_of_take [OF this assms(4)]
  have "list_all2 press_of (map (\<lambda>j. sequence g ! j) [0..<k]) ps" .
  from player_says_loop_wrong_press [OF assms(1,2) le0 assms(3) this assms(5,6,7)] obtain w1 where
    "player_says_loop 0 g w = Done (g\<lparr>state := GAME_OVER\<rparr>) w1" "inputs w1 = rest"
    by blast
  with assms(1) show ?thesis by (simp add: step_def)
qed

text \<open>
  Two presses for worked examples. The quick one is the \<open>tap\<close> above. The slow one
  comes after two scans that find nothing, shows the buttons below it released during
  the scan that finds it, and is held for three reads of the release wait. And a hold
  that starts at the fourth read of a scan, after seven reads with nothing down, and
  lasts for eight reads.
\<close>

definition quick_press :: "nat \<Rightarrow> press" where
  "quick_press b = \<lparr>idle_polls = [], finding_scan = replicate (Suc b) (holding b),
                     held_reads = [holding b], release_read = released\<rparr>"

definition firm_hold :: "nat \<Rightarrow> button_hold" where
  "firm_hold b = \<lparr>nothing_down = replicate 7 released, button_down = replicate 8 (holding b),
                    button_up = released\<rparr>"

definition slow_press :: "nat \<Rightarrow> press" where
  "slow_press b = \<lparr>idle_polls = replicate 8 released,
                    finding_scan = replicate b released @ [holding b],
                    held_reads = replicate 3 (holding b), release_read = released\<rparr>"

text \<open>
  C1. First part: when the samples to come are presses of the buttons
  \<open>sequence[0]\<close>, ..., \<open>sequence[current_level]\<close>, in that order, each after any number
  of scans that find nothing and held for any number of reads, the pass through
  \<open>PLAYER_SAYS\<close> returns with exactly those samples read: in \<open>WIN\<close> if \<open>current_level\<close>
  is \<open>MAX_LEVEL - 1\<close>, and otherwise with one added to \<open>current_level\<close>, in
  \<open>SIMON_SAYS\<close>. Second part: a pass that returns has read exactly the samples of a
  run of presses of some buttons \<open>bs\<close>, which are also the presses its log shows, and
  \<open>sequence\<close> is unchanged. It is in \<open>WIN\<close> or has advanced the level, as above, when
  \<open>bs\<close> is \<open>sequence[0..current_level]\<close>, and in every other case it is in \<open>GAME_OVER\<close>
  with \<open>current_level\<close> unchanged: the advance happens only for a round matched in
  full, in order. Third part: the first part again for holds told without the scan in
  mind, each starting at any read and lasting at least \<open>2 * BUTTON_COUNT\<close> reads.
\<close>

theorem player_round_advance:
  "(state g = PLAYER_SAYS \<and> current_level g < MAX_LEVEL \<and>
    current_level g < length (sequence g) \<and>
    list_all2 press_of (take (Suc (current_level g)) (sequence g)) ps \<and>
    inputs w = concat (map press_samples ps) @ rest \<longrightarrow>
      (\<exists>w1. step eng g w =
               Done (if current_level g = MAX_LEVEL - 1 then g\<lparr>state := WIN\<rparr>
                     else g\<lparr>current_level := current_level g + 1, state := SIMON_SAYS\<rparr>) w1 \<and>
             inputs w1 = rest)) \<and>
   (state g = PLAYER_SAYS \<and> current_level g < MAX_LEVEL \<and> step eng g w = Done g' w' \<longrightarrow>
      (\<exists>bs ps evs. list_all2 press_of bs ps \<and>
         inputs w = concat (map press_samples ps) @ inputs w' \<and>
         events w' = events w @ evs \<and> presses evs = bs \<and> sequence g' = sequence g \<and>
         (if bs = take (Suc (current_level g)) (sequence g)
          then (if current_level g = MAX_LEVEL - 1
                then state g' = WIN \<and> current_level g' = current_level g
                else state g' = SIMON_SAYS \<and> current_level g' = current_level g + 1)
          else state g' = GAME_OVER \<and> current_level g' = current_level g))) \<and>
   (state g = PLAYER_SAYS \<and> current_level g < MAX_LEVEL \<and>
    current_level g < length (sequence g) \<and>
    list_all2 hold_of (take (Suc (current_level g)) (sequence g)) hs \<and>
    inputs w = concat (map hold_samples hs) @ rest \<longrightarrow>
      (\<exists>w1. step eng g w =
               Done (if current_level g = MAX_LEVEL - 1 then g\<lparr>state := WIN\<rparr>
                     else g\<lparr>current_level := current_level g + 1, state := SIMON_SAYS\<rparr>) w1 \<and>
             inputs w1 = rest))"
proof (intro conjI impI)
  assume a: "state g = PLAYER_SAYS \<and> current_level g < MAX_LEVEL \<and>
    current_level g < length (sequence g) \<and>
    list_all2 press_of (take (Suc (current_level g)) (sequence g)) ps \<and>
    inputs w = concat (map press_samples ps) @ rest"
  then have st: "state g = PLAYER_SAYS" and len: "current_level g < length (sequence g)"
    and lvl: "current_level g < MAX_LEVEL"
    and ps: "list_all2 press_of (take (Suc (current_level g)) (sequence g)) ps"
    and ins: "inputs w = concat (map press_samples ps) @ rest"
    by blast+
  from lvl have small: "(current_level g + 1) mod 256 = current_level g + 1"
    by (simp add: MAX_LEVEL_def)
  from round_matched [OF st len ps ins, of eng, unfolded small]
  show "\<exists>w1. step eng g w =
               Done (if current_level g = MAX_LEVEL - 1 then g\<lparr>state := WIN\<rparr>
                     else g\<lparr>current_level := current_level g + 1, state := SIMON_SAYS\<rparr>) w1 \<and>
             inputs w1 = rest" .
next
  assume a: "state g = PLAYER_SAYS \<and> current_level g < MAX_LEVEL \<and> step eng g w = Done g' w'"
  then have st: "state g = PLAYER_SAYS" and lvl: "current_level g < MAX_LEVEL"
    and step: "step eng g w = Done g' w'"
    by blast+
  from round_inputs [OF st step] obtain bs ps evs where
    sh: "list_all2 press_of bs ps" "inputs w = concat (map press_samples ps) @ inputs w'"
      "events w' = events w @ evs" "presses evs = bs"
    and alt: "(Suc (current_level g) \<le> length (sequence g) \<and>
         bs = take (Suc (current_level g)) (sequence g) \<and>
         g' = (if current_level g = MAX_LEVEL - 1 then g\<lparr>state := WIN\<rparr>
               else g\<lparr>current_level := (current_level g + 1) mod 256, state := SIMON_SAYS\<rparr>)) \<or>
        (g' = g\<lparr>state := GAME_OVER\<rparr> \<and>
         (\<exists>k b. k \<le> current_level g \<and> k < length (sequence g) \<and> b \<noteq> sequence g ! k \<and>
            bs = take k (sequence g) @ [b]))"
    by (elim exE conjE) (rule that)
  from lvl have small: "(current_level g + 1) mod 256 = current_level g + 1"
    by (simp add: MAX_LEVEL_def)
  from alt have "sequence g' = sequence g \<and>
         (if bs = take (Suc (current_level g)) (sequence g)
          then (if current_level g = MAX_LEVEL - 1
                then state g' = WIN \<and> current_level g' = current_level g
                else state g' = SIMON_SAYS \<and> current_level g' = current_level g + 1)
          else state g' = GAME_OVER \<and> current_level g' = current_level g)"
  proof
    assume "Suc (current_level g) \<le> length (sequence g) \<and>
         bs = take (Suc (current_level g)) (sequence g) \<and>
         g' = (if current_level g = MAX_LEVEL - 1 then g\<lparr>state := WIN\<rparr>
               else g\<lparr>current_level := (current_level g + 1) mod 256, state := SIMON_SAYS\<rparr>)"
    with small show ?thesis by simp
  next
    assume "g' = g\<lparr>state := GAME_OVER\<rparr> \<and>
         (\<exists>k b. k \<le> current_level g \<and> k < length (sequence g) \<and> b \<noteq> sequence g ! k \<and>
            bs = take k (sequence g) @ [b])"
    then obtain k b where
      bad: "g' = g\<lparr>state := GAME_OVER\<rparr>" "k \<le> current_level g" "k < length (sequence g)"
        "b \<noteq> sequence g ! k" "bs = take k (sequence g) @ [b]"
      by blast
    from wrong_press_differs [OF bad(2,3,4)] bad(5)
    have "bs \<noteq> take (Suc (current_level g)) (sequence g)" by simp
    with bad(1) show ?thesis by simp
  qed
  with sh show "\<exists>bs ps evs. list_all2 press_of bs ps \<and>
         inputs w = concat (map press_samples ps) @ inputs w' \<and>
         events w' = events w @ evs \<and> presses evs = bs \<and> sequence g' = sequence g \<and>
         (if bs = take (Suc (current_level g)) (sequence g)
          then (if current_level g = MAX_LEVEL - 1
                then state g' = WIN \<and> current_level g' = current_level g
                else state g' = SIMON_SAYS \<and> current_level g' = current_level g + 1)
          else state g' = GAME_OVER \<and> current_level g' = current_level g)"
    by blast
next
  assume a: "state g = PLAYER_SAYS \<and> current_level g < MAX_LEVEL \<and>
    current_level g < length (sequence g) \<and>
    list_all2 hold_of (take (Suc (current_level g)) (sequence g)) hs \<and>
    inputs w = concat (map hold_samples hs) @ rest"
  then have st: "state g = PLAYER_SAYS" and len: "current_level g < length (sequence g)"
    and lvl: "current_level g < MAX_LEVEL"
    and hs: "list_all2 hold_of (take (Suc (current_level g)) (sequence g)) hs"
    and ins: "inputs w = concat (map hold_samples hs) @ rest"
    by blast+
  from holds_are_presses [OF hs] obtain ps where
    ps: "list_all2 press_of (take (Suc (current_level g)) (sequence g)) ps"
      "concat (map press_samples ps) = concat (map hold_samples hs)"
    by blast
  from ins ps(2) have ins': "inputs w = concat (map press_samples ps) @ rest" by simp
  from lvl have small: "(current_level g + 1) mod 256 = current_level g + 1"
    by (simp add: MAX_LEVEL_def)
  from round_matched [OF st len ps(1) ins', of eng, unfolded small]
  show "\<exists>w1. step eng g w =
               Done (if current_level g = MAX_LEVEL - 1 then g\<lparr>state := WIN\<rparr>
                     else g\<lparr>current_level := current_level g + 1, state := SIMON_SAYS\<rparr>) w1 \<and>
             inputs w1 = rest" .
qed

text \<open>
  The last round of the spec's first scenario: the player presses 2, 0, 3, 1, 2, the
  first and the third press after two idle scans each. And the second round, with the
  holds of 2 and 0 starting in the middle of a scan: the level goes from 1 to 2.
\<close>

theorem player_round_advance_witness:
  "\<exists>w1. step scenario_engine (round_game 4)
           (init_world (concat (map press_samples
              [slow_press 2, quick_press 0, slow_press 3, quick_press 1, quick_press 2]))) =
          Done ((round_game 4)\<lparr>state := WIN\<rparr>) w1 \<and>
        inputs w1 = [] \<and> presses (events w1) = [2, 0, 3, 1, 2] \<and>
        (\<exists>w2. step scenario_engine (round_game 1)
                 (init_world (concat (map hold_samples [firm_hold 2, firm_hold 0]) @ tap 2)) =
                Done ((round_game 1)\<lparr>current_level := 2, state := SIMON_SAYS\<rparr>) w2 \<and>
              inputs w2 = tap 2)"
proof -
  let ?h = "round_game 1"
  let ?hs = "[firm_hold 2, firm_hold 0]"
  let ?v = "init_world (concat (map hold_samples ?hs) @ tap 2)"
  have "list_all2 hold_of [2, 0] ?hs" by code_simp
  then have "state ?h = PLAYER_SAYS \<and> current_level ?h < MAX_LEVEL \<and>
    current_level ?h < length (sequence ?h) \<and>
    list_all2 hold_of (take (Suc (current_level ?h)) (sequence ?h)) ?hs \<and>
    inputs ?v = concat (map hold_samples ?hs) @ tap 2"
    by (simp add: round_game_def MAX_LEVEL_def init_world_def)
  from player_round_advance [where g = ?h and hs = ?hs and w = ?v and rest = "tap 2" and
      eng = scenario_engine, THEN conjunct2, THEN conjunct2, rule_format, OF this]
  have anytime: "\<exists>w2. step scenario_engine ?h ?v =
                Done (?h\<lparr>current_level := 2, state := SIMON_SAYS\<rparr>) w2 \<and>
              inputs w2 = tap 2"
    by (simp add: round_game_def MAX_LEVEL_def numeral_2_eq_2)
  let ?g = "round_game 4"
  let ?ps = "[slow_press 2, quick_press 0, slow_press 3, quick_press 1, quick_press 2]"
  let ?w = "init_world (concat (map press_samples ?ps))"
  have "list_all2 press_of [2, 0, 3, 1, 2] ?ps" by code_simp
  then have "state ?g = PLAYER_SAYS \<and> current_level ?g < MAX_LEVEL \<and>
    current_level ?g < length (sequence ?g) \<and>
    list_all2 press_of (take (Suc (current_level ?g)) (sequence ?g)) ?ps \<and>
    inputs ?w = concat (map press_samples ?ps) @ []"
    by (simp add: round_game_def MAX_LEVEL_def init_world_def)
  from player_round_advance [of ?g ?ps ?w "[]" scenario_engine, THEN conjunct1, rule_format,
      OF this]
  obtain w1 where w1: "step scenario_engine ?g ?w = Done (?g\<lparr>state := WIN\<rparr>) w1"
    "inputs w1 = []"
    by (auto simp: round_game_def MAX_LEVEL_def)
  have "state ?g = PLAYER_SAYS \<and> current_level ?g < MAX_LEVEL \<and>
    step scenario_engine ?g ?w = Done (?g\<lparr>state := WIN\<rparr>) w1"
    using w1(1) by (simp add: round_game_def MAX_LEVEL_def)
  from player_round_advance [of ?g _ ?w _ scenario_engine "?g\<lparr>state := WIN\<rparr>" w1,
      THEN conjunct2, THEN conjunct1, rule_format, OF this]
  obtain bs evs where
    r: "events w1 = events ?w @ evs" "presses evs = bs"
      "if bs = take (Suc (current_level ?g)) (sequence ?g)
       then (if current_level ?g = MAX_LEVEL - 1
             then state (?g\<lparr>state := WIN\<rparr>) = WIN \<and>
                  current_level (?g\<lparr>state := WIN\<rparr>) = current_level ?g
             else state (?g\<lparr>state := WIN\<rparr>) = SIMON_SAYS \<and>
                  current_level (?g\<lparr>state := WIN\<rparr>) = current_level ?g + 1)
       else state (?g\<lparr>state := WIN\<rparr>) = GAME_OVER \<and>
            current_level (?g\<lparr>state := WIN\<rparr>) = current_level ?g"
    by (elim exE conjE) (rule that)
  from r(3) have "bs = [2, 0, 3, 1, 2]"
    by (simp add: round_game_def split: if_splits)
  with r(1,2) have "presses (events w1) = [2, 0, 3, 1, 2]"
    by (simp add: init_world_def)
  with w1 anytime show ?thesis by blast
qed

text \<open>
  C2. First part: when the samples to come are presses of \<open>sequence[0]\<close>, ...,
  \<open>sequence[k-1]\<close> for a position \<open>k\<close> of the round, then a press of a button that
  differs from \<open>sequence[k]\<close>, each press after any number of scans that find nothing,
  the pass returns in \<open>GAME_OVER\<close> with nothing but \<open>state\<close> changed, and whatever
  follows the release of the wrong press is left unread. Second part: a pass that
  returns is in \<open>GAME_OVER\<close> exactly when its log is a run of presses that match
  \<open>sequence[0..k-1]\<close> for some position \<open>k\<close>, followed by one press \<open>p\<close> that differs
  from \<open>sequence[k]\<close> and after that press only its own release wait, LED off and
  delay: no later position is polled or read. Third part: such a pass has read exactly
  the samples of presses of \<open>sequence[0..k-1]\<close> and of one press of a button that
  differs from \<open>sequence[k]\<close>, so the press that ends the round is the first one that
  differs. Fourth part: the first part again for holds told without the scan in mind.
\<close>

theorem mismatch_ends_round:
  "(state g = PLAYER_SAYS \<and> current_level g < length (sequence g) \<and> k \<le> current_level g \<and>
    list_all2 press_of (take k (sequence g)) ps \<and> press_of b q \<and> b \<noteq> sequence g ! k \<and>
    inputs w = concat (map press_samples ps) @ press_samples q @ rest \<longrightarrow>
      (\<exists>w1. step eng g w = Done (g\<lparr>state := GAME_OVER\<rparr>) w1 \<and> inputs w1 = rest)) \<and>
   (state g = PLAYER_SAYS \<and> step eng g w = Done g' w' \<longrightarrow>
      (\<exists>evs. events w' = events w @ evs \<and>
         (state g' = GAME_OVER \<longleftrightarrow>
            (\<exists>k p n evs0. k \<le> current_level g \<and> k < length (sequence g) \<and>
               p < BUTTON_COUNT \<and> p \<noteq> sequence g ! k \<and>
               presses evs0 = take k (sequence g) \<and> evs = evs0 @ press_events p n)) \<and>
         (state g' = GAME_OVER \<longrightarrow> g' = g\<lparr>state := GAME_OVER\<rparr>))) \<and>
   (state g = PLAYER_SAYS \<and> step eng g w = Done g' w' \<and> state g' = GAME_OVER \<longrightarrow>
      (\<exists>k ps b q. k \<le> current_level g \<and> k < length (sequence g) \<and>
         list_all2 press_of (take k (sequence g)) ps \<and> press_of b q \<and>
         b \<noteq> sequence g ! k \<and>
         inputs w = concat (map press_samples ps) @ press_samples q @ inputs w')) \<and>
   (state g = PLAYER_SAYS \<and> current_level g < length (sequence g) \<and> k \<le> current_level g \<and>
    list_all2 hold_of (take k (sequence g)) hs \<and> hold_of b h \<and> b \<noteq> sequence g ! k \<and>
    inputs w = concat (map hold_samples hs) @ hold_samples h @ rest \<longrightarrow>
      (\<exists>w1. step eng g w = Done (g\<lparr>state := GAME_OVER\<rparr>) w1 \<and> inputs w1 = rest))"
proof (intro conjI impI)
  assume a: "state g = PLAYER_SAYS \<and> current_level g < length (sequence g) \<and>
    k \<le> current_level g \<and> list_all2 press_of (take k (sequence g)) ps \<and> press_of b q \<and>
    b \<noteq> sequence g ! k \<and>
    inputs w = concat (map press_samples ps) @ press_samples q @ rest"
  then have st: "state g = PLAYER_SAYS" and len: "current_level g < length (sequence g)"
    and k: "k \<le> current_level g" and ps: "list_all2 press_of (take k (sequence g)) ps"
    and q: "press_of b q" "b \<noteq> sequence g ! k"
    and ins: "inputs w = concat (map press_samples ps) @ press_samples q @ rest"
    by blast+
  from round_lost [OF st len k ps q ins]
  show "\<exists>w1. step eng g w = Done (g\<lparr>state := GAME_OVER\<rparr>) w1 \<and> inputs w1 = rest" .
next
  assume "state g = PLAYER_SAYS \<and> step eng g w = Done g' w'"
  then show "\<exists>evs. events w' = events w @ evs \<and>
         (state g' = GAME_OVER \<longleftrightarrow>
            (\<exists>k p n evs0. k \<le> current_level g \<and> k < length (sequence g) \<and>
               p < BUTTON_COUNT \<and> p \<noteq> sequence g ! k \<and>
               presses evs0 = take k (sequence g) \<and> evs = evs0 @ press_events p n)) \<and>
         (state g' = GAME_OVER \<longrightarrow> g' = g\<lparr>state := GAME_OVER\<rparr>)"
    using round_mismatch [of g eng w g' w'] by blast
next
  assume "state g = PLAYER_SAYS \<and> step eng g w = Done g' w' \<and> state g' = GAME_OVER"
  then have "state g = PLAYER_SAYS" "step eng g w = Done g' w'" "state g' = GAME_OVER"
    by blast+
  then show "\<exists>k ps b q. k \<le> current_level g \<and> k < length (sequence g) \<and>
         list_all2 press_of (take k (sequence g)) ps \<and> press_of b q \<and>
         b \<noteq> sequence g ! k \<and>
         inputs w = concat (map press_samples ps) @ press_samples q @ inputs w'"
    by (rule round_lost_inputs)
next
  assume a: "state g = PLAYER_SAYS \<and> current_level g < length (sequence g) \<and>
    k \<le> current_level g \<and> list_all2 hold_of (take k (sequence g)) hs \<and> hold_of b h \<and>
    b \<noteq> sequence g ! k \<and>
    inputs w = concat (map hold_samples hs) @ hold_samples h @ rest"
  then have st: "state g = PLAYER_SAYS" and len: "current_level g < length (sequence g)"
    and k: "k \<le> current_level g" and hs: "list_all2 hold_of (take k (sequence g)) hs"
    and h: "hold_of b h" and b: "b \<noteq> sequence g ! k"
    and ins: "inputs w = concat (map hold_samples hs) @ hold_samples h @ rest"
    by blast+
  from holds_are_presses [OF hs] obtain ps where
    ps: "list_all2 press_of (take k (sequence g)) ps"
      "concat (map press_samples ps) = concat (map hold_samples hs)"
    by blast
  from hold_is_press [OF h] obtain q where
    q: "press_of b q" "press_samples q = hold_samples h"
    by blast
  from ins ps(2) q(2)
  have "inputs w = concat (map press_samples ps) @ press_samples q @ rest" by simp
  from round_lost [OF st len k ps(1) q(1) b this]
  show "\<exists>w1. step eng g w = Done (g\<lparr>state := GAME_OVER\<rparr>) w1 \<and> inputs w1 = rest" .
qed

text \<open>
  The spec's second scenario: at round 3, expecting 2, 0, 3, the player presses 2, 0, 1
  and then 3. The round is lost at the third press; the fourth is not read. And the
  same round lost at its second position, by a hold of 3 where 0 was expected.
\<close>

theorem mismatch_ends_round_witness:
  "\<exists>w1. step scenario_engine (round_game 2)
       (init_world (press_samples (slow_press 2) @ press_samples (quick_press 0) @
                    press_samples (slow_press 1) @ tap 3)) =
       Done ((round_game 2)\<lparr>state := GAME_OVER\<rparr>) w1 \<and>
     inputs w1 = tap 3 \<and> presses (events w1) = [2, 0, 1] \<and>
     (\<exists>k p n evs0. k \<le> 2 \<and> p \<noteq> [2, 0, 3, 1, 2] ! k \<and>
        presses evs0 = take k [2, 0, 3, 1, 2] \<and> events w1 = evs0 @ press_events p n) \<and>
     (\<exists>k ps b q. k \<le> 2 \<and> list_all2 press_of (take k [2, 0, 3, 1, 2]) ps \<and>
        press_of b q \<and> b \<noteq> [2, 0, 3, 1, 2] ! k \<and>
        press_samples (slow_press 2) @ press_samples (quick_press 0) @
          press_samples (slow_press 1) @ tap 3 =
        concat (map press_samples ps) @ press_samples q @ tap 3) \<and>
     (\<exists>w2. step scenario_engine (round_game 2)
              (init_world (hold_samples (firm_hold 2) @ hold_samples (firm_hold 3) @ tap 3)) =
             Done ((round_game 2)\<lparr>state := GAME_OVER\<rparr>) w2 \<and>
           inputs w2 = tap 3)"
proof -
  let ?v = "init_world (hold_samples (firm_hold 2) @ hold_samples (firm_hold 3) @ tap 3)"
  have "list_all2 hold_of [2] [firm_hold 2] \<and> hold_of 3 (firm_hold 3)" by code_simp
  then have "state (round_game 2) = PLAYER_SAYS \<and>
    current_level (round_game 2) < length (sequence (round_game 2)) \<and>
    1 \<le> current_level (round_game 2) \<and>
    list_all2 hold_of (take 1 (sequence (round_game 2))) [firm_hold 2] \<and>
    hold_of 3 (firm_hold 3) \<and> 3 \<noteq> sequence (round_game 2) ! 1 \<and>
    inputs ?v = concat (map hold_samples [firm_hold 2]) @ hold_samples (firm_hold 3) @ tap 3"
    by (simp add: round_game_def init_world_def)
  from mismatch_ends_round [where g = "round_game 2" and k = 1 and hs = "[firm_hold 2]" and
      b = 3 and h = "firm_hold 3" and w = ?v and rest = "tap 3" and eng = scenario_engine,
      THEN conjunct2, THEN conjunct2, THEN conjunct2, rule_format, OF this]
  have anytime: "\<exists>w2. step scenario_engine (round_game 2) ?v =
             Done ((round_game 2)\<lparr>state := GAME_OVER\<rparr>) w2 \<and> inputs w2 = tap 3" .
  let ?g = "round_game 2"
  let ?ps = "[slow_press 2, quick_press 0]"
  let ?ins = "press_samples (slow_press 2) @ press_samples (quick_press 0) @
                press_samples (slow_press 1) @ tap 3"
  let ?w = "init_world ?ins"
  have "list_all2 press_of [2, 0] ?ps \<and> press_of 1 (slow_press 1)" by code_simp
  then have "state ?g = PLAYER_SAYS \<and> current_level ?g < length (sequence ?g) \<and>
    2 \<le> current_level ?g \<and> list_all2 press_of (take 2 (sequence ?g)) ?ps \<and>
    press_of 1 (slow_press 1) \<and> 1 \<noteq> sequence ?g ! 2 \<and>
    inputs ?w = concat (map press_samples ?ps) @ press_samples (slow_press 1) @ tap 3"
    by (simp add: round_game_def init_world_def)
  from mismatch_ends_round [where g = ?g and k = 2 and ps = ?ps and b = 1 and
      q = "slow_press 1" and w = ?w and rest = "tap 3" and eng = scenario_engine,
      THEN conjunct1, rule_format, OF this]
  obtain w1 where w1: "step scenario_engine ?g ?w = Done (?g\<lparr>state := GAME_OVER\<rparr>) w1"
    "inputs w1 = tap 3"
    by blast
  have "case step scenario_engine ?g ?w of
          Done g' w' \<Rightarrow> presses (events w') = [2, 0, 1] | _ \<Rightarrow> False"
    by code_simp
  with w1(1) have log: "presses (events w1) = [2, 0, 1]" by simp
  have ended: "state ?g = PLAYER_SAYS \<and>
    step scenario_engine ?g ?w = Done (?g\<lparr>state := GAME_OVER\<rparr>) w1"
    using w1(1) by (simp add: round_game_def)
  from mismatch_ends_round [where g = ?g and w = ?w and eng = scenario_engine and
      g' = "?g\<lparr>state := GAME_OVER\<rparr>" and w' = w1,
      THEN conjunct2, THEN conjunct1, rule_format, OF ended]
  have second: "\<exists>k p n evs0. k \<le> 2 \<and> p \<noteq> [2, 0, 3, 1, 2] ! k \<and>
        presses evs0 = take k [2, 0, 3, 1, 2] \<and> events w1 = evs0 @ press_events p n"
    by (auto simp: round_game_def init_world_def)
  have lost: "state ?g = PLAYER_SAYS \<and>
    step scenario_engine ?g ?w = Done (?g\<lparr>state := GAME_OVER\<rparr>) w1 \<and>
    state (?g\<lparr>state := GAME_OVER\<rparr>) = GAME_OVER"
    using w1(1) by (simp add: round_game_def)
  from mismatch_ends_round [where g = ?g and w = ?w and eng = scenario_engine and
      g' = "?g\<lparr>state := GAME_OVER\<rparr>" and w' = w1,
      THEN conjunct2, THEN conjunct2, THEN conjunct1, rule_format, OF lost]
  have third: "\<exists>k ps b q. k \<le> 2 \<and> list_all2 press_of (take k [2, 0, 3, 1, 2]) ps \<and>
        press_of b q \<and> b \<noteq> [2, 0, 3, 1, 2] ! k \<and>
        ?ins = concat (map press_samples ps) @ press_samples q @ tap 3"
    using w1(2) by (auto simp: round_game_def init_world_def)
  from w1 log second third anytime show ?thesis by blast
qed

subsection \<open>The demonstration\<close>

text \<open>The log of one pulse of the LED of index \<open>s\<close>: on, the delay, off, the same delay.\<close>

definition pulse :: "nat \<Rightarrow> event list" where
  "pulse s = [WritePin GPIOA (led_pins ! s) GPIO_PIN_SET, Delay GAME_SPEED_MS,
              WritePin GPIOA (led_pins ! s) GPIO_PIN_RESET, Delay GAME_SPEED_MS]"

lemma simon_says_loop_pulses:
  "\<forall>j. i \<le> j \<and> j \<le> current_level g \<longrightarrow> j < length (sequence g) \<and> sequence g ! j < LED_COUNT \<Longrightarrow>
     \<exists>w'. simon_says_loop i g w =
             Done (if i \<le> current_level g then g\<lparr>state := PLAYER_SAYS\<rparr> else g) w' \<and>
           events w' = events w @
             concat (map (\<lambda>j. pulse (sequence g ! j)) [i..<Suc (current_level g)]) \<and>
           inputs w' = inputs w"
proof (induction i g w rule: simon_says_loop.induct)
  case (1 i g w)
  show ?case
  proof (cases "i \<le> current_level g")
    case False
    then show ?thesis by (subst simon_says_loop.simps) simp
  next
    case True
    let ?s = "sequence g ! i"
    let ?led = "led_pins ! ?s"
    let ?g = "g\<lparr>state := PLAYER_SAYS\<rparr>"
    let ?w = "HAL_Delay GAME_SPEED_MS (HAL_GPIO_WritePin GPIOA ?led GPIO_PIN_RESET
                (HAL_Delay GAME_SPEED_MS (HAL_GPIO_WritePin GPIOA ?led GPIO_PIN_SET w)))"
    from "1.prems" True have here: "i < length (sequence g)" "?s < LED_COUNT" by auto
    then have arr: "array_get (sequence g) i = Some ?s" "array_get led_pins ?s = Some ?led"
      by (simp_all add: array_get_def led_pins_def LED_COUNT_def)
    have unfold: "simon_says_loop i g w = simon_says_loop (i + 1) ?g ?w"
      using True arr by (subst simon_says_loop.simps) simp
    have "\<forall>j. i + 1 \<le> j \<and> j \<le> current_level ?g \<longrightarrow>
            j < length (sequence ?g) \<and> sequence ?g ! j < LED_COUNT"
      using "1.prems" by simp
    from "1.IH" [OF True arr this] obtain w' where
      ih: "simon_says_loop (i + 1) ?g ?w =
             Done (if i + 1 \<le> current_level ?g then ?g\<lparr>state := PLAYER_SAYS\<rparr> else ?g) w'"
        "events w' = events ?w @
           concat (map (\<lambda>j. pulse (sequence ?g ! j)) [i + 1..<Suc (current_level ?g)])"
        "inputs w' = inputs ?w"
      by (elim exE conjE) (rule that)
    have "simon_says_loop i g w = Done ?g w'"
      unfolding unfold ih(1) by simp
    moreover have "events w' = events w @
        concat (map (\<lambda>j. pulse (sequence g ! j)) [i..<Suc (current_level g)])"
      using ih(2) True by (simp add: upt_conv_Cons pulse_def del: upt_Suc)
    moreover have "inputs w' = inputs w" using ih(3) by simp
    ultimately show ?thesis using True by simp
  qed
qed

lemma distrib_range: "fst (distrib eng gen) \<le> distrib_b"
  by (simp add: distrib_def distrib_a_def distrib_b_def)

lemma step_SIMON_SAYS:
  assumes "state g = SIMON_SAYS" "current_level g < length (sequence g)"
    "\<forall>j<current_level g. sequence g ! j < LED_COUNT"
  shows "\<exists>w'. step eng g w =
           Done (g\<lparr>generator := snd (distrib eng (generator g)),
                   sequence := (sequence g)[current_level g := fst (distrib eng (generator g))],
                   state := PLAYER_SAYS\<rparr>) w' \<and>
         events w' = events w @
           concat (map (\<lambda>j. pulse ((sequence g)
                                [current_level g := fst (distrib eng (generator g))] ! j))
                     [0..<Suc (current_level g)]) \<and>
         inputs w' = inputs w"
proof -
  let ?v = "fst (distrib eng (generator g))"
  let ?seq = "(sequence g)[current_level g := ?v]"
  let ?g = "g\<lparr>generator := snd (distrib eng (generator g)), sequence := ?seq\<rparr>"
  have v: "?v < LED_COUNT"
    using distrib_range [of eng "generator g"] by (simp add: distrib_b_def LED_COUNT_def)
  have set: "array_set (sequence g) (current_level g) ?v = Some ?seq"
    using assms(2) by (simp add: array_set_def)
  have unfold: "step eng g w = simon_says_loop 0 ?g w"
    using assms(1) set by (simp add: step_def case_prod_beta)
  have "\<forall>j. 0 \<le> j \<and> j \<le> current_level ?g \<longrightarrow>
          j < length (sequence ?g) \<and> sequence ?g ! j < LED_COUNT"
    using assms(2,3) v by (auto simp: nth_list_update)
  from simon_says_loop_pulses [OF this, of w] show ?thesis
    unfolding unfold by simp
qed

subsection \<open>Holding a button\<close>

text \<open>A scan over samples in which the one button \<open>b\<close> is held finds \<open>b\<close> or runs out.\<close>

lemma scan_buttons_only:
  assumes "\<forall>s\<in>set (inputs w). \<forall>j<BUTTON_COUNT. button_active s j = (j = b)"
    "b < BUTTON_COUNT" "i \<le> b"
  shows "(\<exists>w1. scan_buttons i w = Done (int b) w1 \<and> set (inputs w1) \<subseteq> set (inputs w)) \<or>
         (\<exists>w1. scan_buttons i w = Waiting w1 \<and> length (inputs w) \<le> b - i)"
  using assms
proof (induction i w rule: scan_buttons.induct)
  case (1 i w)
  from "1.prems" have lt: "i < BUTTON_COUNT" by simp
  then have pin: "array_get button_pins i = Some (button_pins ! i)"
    by (simp add: array_get_def button_pins_def BUTTON_COUNT_def)
  show ?case
  proof (cases "HAL_GPIO_ReadPin GPIOB (button_pins ! i) w")
    case (Done v w1)
    from ReadPin_Done [OF Done] obtain s rest where s: "inputs w = s # rest"
      "v = pin_level (gpiob_idr s) (button_pins ! i)" "w1 = after_read GPIOB (button_pins ! i) s w"
      by (auto simp: port_idr_def)
    from "1.prems"(1) s(1) lt have act: "button_active s i = (i = b)" by simp
    have sub: "set (inputs w1) \<subseteq> set (inputs w)" using s by auto
    have len: "length (inputs w) = Suc (length (inputs w1))" using s by simp
    show ?thesis
    proof (cases "v = GPIO_PIN_RESET")
      case True
      with act s(2) have "i = b" by (simp add: button_active_def)
      moreover from True lt pin Done have "scan_buttons i w = Done (int i) w1"
        by (subst scan_buttons.simps) simp
      ultimately show ?thesis using sub by blast
    next
      case False
      with act s(2) have "i \<noteq> b" by (simp add: button_active_def)
      with "1.prems"(3) have le: "i + 1 \<le> b" by simp
      from False lt pin Done have unfold: "scan_buttons i w = scan_buttons (i + 1) w1"
        by (subst scan_buttons.simps) simp
      have "\<forall>s\<in>set (inputs w1). \<forall>j<BUTTON_COUNT. button_active s j = (j = b)"
        using "1.prems"(1) sub by blast
      from "1.IH" [OF lt pin Done False this "1.prems"(2) le]
      have "(\<exists>w2. scan_buttons (i + 1) w1 = Done (int b) w2 \<and> set (inputs w2) \<subseteq> set (inputs w)) \<or>
            (\<exists>w2. scan_buttons (i + 1) w1 = Waiting w2 \<and> length (inputs w) \<le> b - i)"
        using sub len le by fastforce
      then show ?thesis unfolding unfold .
    qed
  next
    case (Waiting w1)
    with lt pin have "scan_buttons i w = Waiting w1"
      by (subst scan_buttons.simps) simp
    with ReadPin_Waiting [OF Waiting] show ?thesis by simp
  next
    case Fault
    then show ?thesis by (simp add: ReadPin_not_Fault)
  qed
qed

text \<open>With one button held in every sample left, the loop for a position never ends.\<close>

lemma await_input_held:
  assumes "\<forall>s\<in>set (inputs w). \<forall>j<BUTTON_COUNT. button_active s j = (j = b)" "b < BUTTON_COUNT"
  shows "\<exists>w2 evs. await_input g i w = Waiting w2 \<and> events w2 = events w @ evs \<and>
           ((presses evs = [] \<and> length (inputs w) \<le> b \<and> gpioa_odr w2 = gpioa_odr w) \<or>
            (presses evs = [b] \<and> gpioa_odr w2 = gpioa_odr w OR led_pins ! b))"
proof -
  from scan_buttons_only [OF assms, of 0]
  consider w1 where "GetPressedButtonIndex w = Done (int b) w1" "set (inputs w1) \<subseteq> set (inputs w)"
    | w1 where "GetPressedButtonIndex w = Waiting w1" "length (inputs w) \<le> b"
    by (auto simp: GetPressedButtonIndex_def)
  then show ?thesis
  proof cases
    case 1
    let ?on = "HAL_Delay GAME_SPEED_MS
                 (HAL_GPIO_WritePin GPIOA (led_pins ! b) GPIO_PIN_SET w1)"
    from GetPressedButtonIndex_Done [OF 1(1)] obtain polls where
      scan: "gpioa_odr w1 = gpioa_odr w" "events w1 = events w @ polls" "list_all is_read polls"
      by blast
    have "\<forall>s\<in>set (inputs ?on). pin_level (gpiob_idr s) (button_pins ! b) = GPIO_PIN_RESET"
      using assms 1(2) by (auto simp: button_active_def)
    from wait_release_held [OF this] obtain w2 where
      wr: "wait_release (button_pins ! b) ?on = Waiting w2" ..
    from wait_release_Waiting [OF wr] have
      w2: "gpioa_odr w2 = gpioa_odr ?on"
        "events w2 = events ?on @
           replicate (length (inputs ?on)) (ReadPin GPIOB (button_pins ! b) GPIO_PIN_RESET)"
      by simp_all
    have "await_input g i w = Waiting w2"
      using await_input_pressed [OF 1(1), of g i] wr by simp
    moreover have "events w2 = events w @ polls @
        [WritePin GPIOA (led_pins ! b) GPIO_PIN_SET, Delay GAME_SPEED_MS] @
        replicate (length (inputs ?on)) (ReadPin GPIOB (button_pins ! b) GPIO_PIN_RESET)"
      using w2(2) scan(2) by simp
    moreover have "presses (polls @
        [WritePin GPIOA (led_pins ! b) GPIO_PIN_SET, Delay GAME_SPEED_MS] @
        replicate (length (inputs ?on)) (ReadPin GPIOB (button_pins ! b) GPIO_PIN_RESET)) = [b]"
      using scan(3) assms(2)
      by (simp add: presses_reads)
         (simp add: presses_def led_index_led_pins BUTTON_COUNT_def LED_COUNT_def)
    moreover have "gpioa_odr w2 = gpioa_odr w OR led_pins ! b"
      using w2(1) scan(1) by simp
    ultimately show ?thesis by blast
  next
    case 2
    from GetPressedButtonIndex_Waiting [OF 2(1)] obtain polls where
      scan: "gpioa_odr w1 = gpioa_odr w" "events w1 = events w @ polls" "list_all is_read polls"
      by blast
    have "await_input g i w = Waiting w1" using 2(1) by (rule await_input_starved)
    moreover have "presses polls = []" using scan(3) by (rule presses_reads)
    ultimately show ?thesis using scan(1,2) 2(2) by blast
  qed
qed

text \<open>
  C4. First part: when the samples to come are a press of button \<open>b\<close> (scans that
  find nothing, the scan that finds \<open>b\<close> active, reads that find it held, the read
  that finds it released), the loop for position \<open>i\<close> returns having read exactly
  those samples. Its log is the polling reads, the read that found \<open>b\<close> active, straight
  after it LED \<open>b\<close> on and the delay of \<open>GAME_SPEED_MS\<close>, one read of button \<open>b\<close> for
  every sample of the hold, the read that finds it released, and only then LED \<open>b\<close>
  off and the delay. The one position \<open>i\<close> is compared, and the whole hold is used up
  by it. Second part: when the hold lasts to the end of the samples, the round does not
  return: it is still waiting, LED \<open>b\<close> is on, every sample of the hold was read by the
  release wait, and no other position has been looked at. Third part: every return of
  the loop is of that kind: the samples it read are one press, and the log is as in the
  first part. Fourth part: when button \<open>b\<close> alone is held in every sample left, the
  round does not return and at most one press is registered. Fifth part: the first
  part holds as well of a hold of button \<open>b\<close> that starts at any read, after any number
  of samples with nothing down, and lasts for at least \<open>2 * BUTTON_COUNT\<close> reads: the
  loop returns at its release, with LED \<open>b\<close> on from the read that found it until then.
\<close>

theorem hold_until_release:
  "(press_of b p \<and> inputs w = press_samples p @ rest \<and> i < length (sequence g) \<longrightarrow>
      (\<exists>w' polls. await_input g i w =
           Done (if b = sequence g ! i then g else g\<lparr>state := GAME_OVER\<rparr>) w' \<and>
         inputs w' = rest \<and> list_all is_read polls \<and>
         events w' = events w @ polls @ [ReadPin GPIOB (button_pins ! b) GPIO_PIN_RESET] @
                       press_events b (length (held_reads p)))) \<and>
   (idle_scans idl \<and> scan_finds b fnd \<and> list_all (\<lambda>s. button_active s b) hld \<and>
    inputs w = idl @ fnd @ hld \<and> i \<le> current_level g \<longrightarrow>
      (\<exists>w2 polls. player_says_loop i g w = Waiting w2 \<and> inputs w2 = [] \<and>
         list_all is_read polls \<and>
         events w2 = events w @ polls @
           [ReadPin GPIOB (button_pins ! b) GPIO_PIN_RESET,
            WritePin GPIOA (led_pins ! b) GPIO_PIN_SET, Delay GAME_SPEED_MS] @
           replicate (length hld) (ReadPin GPIOB (button_pins ! b) GPIO_PIN_RESET) \<and>
         gpioa_odr w2 = gpioa_odr w OR led_pins ! b)) \<and>
   (await_input g i w = Done g' w' \<longrightarrow>
      (\<exists>b p polls. press_of b p \<and> inputs w = press_samples p @ inputs w' \<and>
         g' = (if b = sequence g ! i then g else g\<lparr>state := GAME_OVER\<rparr>) \<and>
         list_all is_read polls \<and>
         events w' = events w @ polls @ [ReadPin GPIOB (button_pins ! b) GPIO_PIN_RESET] @
                       press_events b (length (held_reads p)))) \<and>
   (i \<le> current_level g \<and> b < BUTTON_COUNT \<and>
    (\<forall>s\<in>set (inputs w). \<forall>j<BUTTON_COUNT. button_active s j = (j = b)) \<longrightarrow>
      (\<exists>w2 evs. player_says_loop i g w = Waiting w2 \<and> events w2 = events w @ evs \<and>
         ((presses evs = [] \<and> length (inputs w) \<le> b \<and> gpioa_odr w2 = gpioa_odr w) \<or>
          (presses evs = [b] \<and> gpioa_odr w2 = gpioa_odr w OR led_pins ! b)))) \<and>
   (hold_of b h \<and> inputs w = hold_samples h @ rest \<and> i < length (sequence g) \<longrightarrow>
      (\<exists>w' polls k. await_input g i w =
           Done (if b = sequence g ! i then g else g\<lparr>state := GAME_OVER\<rparr>) w' \<and>
         inputs w' = rest \<and> list_all is_read polls \<and> k \<le> length (button_down h) \<and>
         events w' = events w @ polls @ [ReadPin GPIOB (button_pins ! b) GPIO_PIN_RESET] @
                       press_events b k))"
proof (intro conjI impI)
  assume a: "hold_of b h \<and> inputs w = hold_samples h @ rest \<and> i < length (sequence g)"
  then have h: "hold_of b h" and ins: "inputs w = hold_samples h @ rest"
    and i: "i < length (sequence g)"
    by blast+
  from hold_is_press [OF h] obtain p where
    p: "press_of b p" "press_samples p = hold_samples h"
      "length (held_reads p) \<le> length (button_down h)"
    by blast
  from ins p(2) have "inputs w = press_samples p @ rest" by simp
  from await_input_press [OF p(1) this i] p(3)
  show "\<exists>w' polls k. await_input g i w =
           Done (if b = sequence g ! i then g else g\<lparr>state := GAME_OVER\<rparr>) w' \<and>
         inputs w' = rest \<and> list_all is_read polls \<and> k \<le> length (button_down h) \<and>
         events w' = events w @ polls @ [ReadPin GPIOB (button_pins ! b) GPIO_PIN_RESET] @
                       press_events b k"
    by blast
next
  assume "press_of b p \<and> inputs w = press_samples p @ rest \<and> i < length (sequence g)"
  then have "press_of b p" "inputs w = press_samples p @ rest" "i < length (sequence g)"
    by blast+
  then show "\<exists>w' polls. await_input g i w =
           Done (if b = sequence g ! i then g else g\<lparr>state := GAME_OVER\<rparr>) w' \<and>
         inputs w' = rest \<and> list_all is_read polls \<and>
         events w' = events w @ polls @ [ReadPin GPIOB (button_pins ! b) GPIO_PIN_RESET] @
                       press_events b (length (held_reads p))"
    by (rule await_input_press)
next
  assume a: "idle_scans idl \<and> scan_finds b fnd \<and> list_all (\<lambda>s. button_active s b) hld \<and>
    inputs w = idl @ fnd @ hld \<and> i \<le> current_level g"
  then have h: "idle_scans idl" "scan_finds b fnd" "list_all (\<lambda>s. button_active s b) hld"
    "inputs w = idl @ fnd @ hld" and i: "i \<le> current_level g"
    by blast+
  from await_input_hold [OF h, of g i] obtain w2 polls where
    w2: "await_input g i w = Waiting w2" "inputs w2 = []" "list_all is_read polls"
      "events w2 = events w @ polls @
           [ReadPin GPIOB (button_pins ! b) GPIO_PIN_RESET,
            WritePin GPIOA (led_pins ! b) GPIO_PIN_SET, Delay GAME_SPEED_MS] @
           replicate (length hld) (ReadPin GPIOB (button_pins ! b) GPIO_PIN_RESET)"
      "gpioa_odr w2 = gpioa_odr w OR led_pins ! b"
    by (elim exE conjE) (rule that)
  from i w2(1) have "player_says_loop i g w = Waiting w2"
    by (subst player_says_loop.simps) simp
  with w2(2-5) show "\<exists>w2 polls. player_says_loop i g w = Waiting w2 \<and> inputs w2 = [] \<and>
         list_all is_read polls \<and>
         events w2 = events w @ polls @
           [ReadPin GPIOB (button_pins ! b) GPIO_PIN_RESET,
            WritePin GPIOA (led_pins ! b) GPIO_PIN_SET, Delay GAME_SPEED_MS] @
           replicate (length hld) (ReadPin GPIOB (button_pins ! b) GPIO_PIN_RESET) \<and>
         gpioa_odr w2 = gpioa_odr w OR led_pins ! b"
    by blast
next
  assume "await_input g i w = Done g' w'"
  from await_input_shape [OF this]
  show "\<exists>b p polls. press_of b p \<and> inputs w = press_samples p @ inputs w' \<and>
         g' = (if b = sequence g ! i then g else g\<lparr>state := GAME_OVER\<rparr>) \<and>
         list_all is_read polls \<and>
         events w' = events w @ polls @ [ReadPin GPIOB (button_pins ! b) GPIO_PIN_RESET] @
                       press_events b (length (held_reads p))"
    by (elim exE conjE) (intro exI conjI; assumption)
next
  assume a: "i \<le> current_level g \<and> b < BUTTON_COUNT \<and>
    (\<forall>s\<in>set (inputs w). \<forall>j<BUTTON_COUNT. button_active s j = (j = b))"
  then have held: "\<forall>s\<in>set (inputs w). \<forall>j<BUTTON_COUNT. button_active s j = (j = b)"
    and b: "b < BUTTON_COUNT" and i: "i \<le> current_level g"
    by blast+
  from await_input_held [OF held b, of g i] obtain w2 evs where
    w2: "await_input g i w = Waiting w2" "events w2 = events w @ evs"
      "(presses evs = [] \<and> length (inputs w) \<le> b \<and> gpioa_odr w2 = gpioa_odr w) \<or>
       (presses evs = [b] \<and> gpioa_odr w2 = gpioa_odr w OR led_pins ! b)"
    by (elim exE conjE) (rule that)
  from i w2(1) have "player_says_loop i g w = Waiting w2"
    by (subst player_says_loop.simps) simp
  with w2(2,3) show "\<exists>w2 evs. player_says_loop i g w = Waiting w2 \<and> events w2 = events w @ evs \<and>
         ((presses evs = [] \<and> length (inputs w) \<le> b \<and> gpioa_odr w2 = gpioa_odr w) \<or>
          (presses evs = [b] \<and> gpioa_odr w2 = gpioa_odr w OR led_pins ! b))"
    by blast
qed

text \<open>
  A press of button 2 after two idle scans, held for three reads, then a tap of button
  0 that is left for the next position; button 2 found by the second scan and held for
  the nine samples that remain; button 2 alone held in all nine samples; and button 2
  going down at the fourth read of a scan, after seven reads with nothing down, and held
  for eight reads.
\<close>

theorem hold_until_release_witness:
  "(\<exists>w' polls. await_input (round_game 0) 0
        (init_world (press_samples (slow_press 2) @ tap 0)) = Done (round_game 0) w' \<and>
      inputs w' = tap 0 \<and> list_all is_read polls \<and>
      events w' = polls @ [ReadPin GPIOB (button_pins ! 2) GPIO_PIN_RESET] @ press_events 2 3 \<and>
      (\<exists>b p. press_of b p \<and>
         press_samples (slow_press 2) @ tap 0 = press_samples p @ tap 0)) \<and>
   (\<exists>w2. player_says_loop 0 (round_game 1)
        (init_world (replicate 4 released @ [released, released, holding 2] @
                     replicate 9 (holding 2))) = Waiting w2 \<and>
      inputs w2 = [] \<and> gpioa_odr w2 = led_pins ! 2 \<and> presses (events w2) = [2]) \<and>
   (\<exists>w2 evs. player_says_loop 0 (round_game 1) (init_world (replicate 9 (holding 2))) =
        Waiting w2 \<and> events w2 = evs \<and> presses evs = [2] \<and> gpioa_odr w2 = led_pins ! 2) \<and>
   (\<exists>w'. await_input (round_game 0) 0 (init_world (hold_samples (firm_hold 2) @ tap 0)) =
        Done (round_game 0) w' \<and>
      inputs w' = tap 0 \<and> presses (events w') = [2])"
proof -
  let ?t = "init_world (hold_samples (firm_hold 2) @ tap 0)"
  have "hold_of 2 (firm_hold 2)" by code_simp
  then have "hold_of 2 (firm_hold 2) \<and> inputs ?t = hold_samples (firm_hold 2) @ tap 0 \<and>
    0 < length (sequence (round_game 0))"
    by (simp add: init_world_def round_game_def)
  from hold_until_release [where b = 2 and h = "firm_hold 2" and w = ?t and rest = "tap 0" and
      i = 0 and g = "round_game 0", THEN conjunct2, THEN conjunct2, THEN conjunct2,
      THEN conjunct2, rule_format, OF this]
  obtain t' where t': "await_input (round_game 0) 0 ?t = Done (round_game 0) t'"
    "inputs t' = tap 0"
    by (auto simp: round_game_def)
  have "case await_input (round_game 0) 0 ?t of
          Done g' w' \<Rightarrow> presses (events w') = [2] | _ \<Rightarrow> False"
    by code_simp
  with t'(1) have "presses (events t') = [2]" by simp
  with t' have anytime: "\<exists>w'. await_input (round_game 0) 0 ?t = Done (round_game 0) w' \<and>
      inputs w' = tap 0 \<and> presses (events w') = [2]"
    by blast
  let ?w = "init_world (press_samples (slow_press 2) @ tap 0)"
  let ?v = "init_world (replicate 4 released @ [released, released, holding 2] @
                     replicate 9 (holding 2))"
  let ?u = "init_world (replicate 9 (holding 2))"
  have "press_of 2 (slow_press 2)" by code_simp
  then have "press_of 2 (slow_press 2) \<and> inputs ?w = press_samples (slow_press 2) @ tap 0 \<and>
    0 < length (sequence (round_game 0))"
    by (simp add: round_game_def init_world_def)
  from hold_until_release [where b = 2 and p = "slow_press 2" and w = ?w and
      rest = "tap 0" and i = 0 and g = "round_game 0", THEN conjunct1, rule_format, OF this]
  obtain w' polls where
    ret: "await_input (round_game 0) 0 ?w = Done (round_game 0) w'" "inputs w' = tap 0"
      "list_all is_read polls"
      "events w' = polls @ [ReadPin GPIOB (button_pins ! 2) GPIO_PIN_RESET] @ press_events 2 3"
    by (auto simp: round_game_def init_world_def slow_press_def)
  from hold_until_release [where w = ?w and i = 0 and g = "round_game 0" and
      g' = "round_game 0" and w' = w', THEN conjunct2, THEN conjunct2, THEN conjunct1,
      rule_format, OF ret(1)] ret(2)
  have shape: "\<exists>b p. press_of b p \<and>
      press_samples (slow_press 2) @ tap 0 = press_samples p @ tap 0"
    by (auto simp: init_world_def)
  have "idle_scans (replicate 4 released) \<and> scan_finds 2 [released, released, holding 2] \<and>
    list_all (\<lambda>s. button_active s 2) (replicate 9 (holding 2))"
    by code_simp
  then have "idle_scans (replicate 4 released) \<and> scan_finds 2 [released, released, holding 2] \<and>
    list_all (\<lambda>s. button_active s 2) (replicate 9 (holding 2)) \<and>
    inputs ?v = replicate 4 released @ [released, released, holding 2] @
                  replicate 9 (holding 2) \<and>
    0 \<le> current_level (round_game 1)"
    by (simp add: init_world_def)
  from hold_until_release [where b = 2 and w = ?v and i = 0 and g = "round_game 1" and
      idl = "replicate 4 released" and fnd = "[released, released, holding 2]" and
      hld = "replicate 9 (holding 2)", THEN conjunct2, THEN conjunct1, rule_format, OF this]
  obtain w2 where w2: "player_says_loop 0 (round_game 1) ?v = Waiting w2"
    "inputs w2 = []" "gpioa_odr w2 = gpioa_odr ?v OR led_pins ! 2"
    by (elim exE conjE) (rule that)
  have "case player_says_loop 0 (round_game 1) ?v of
          Waiting v2 \<Rightarrow> presses (events v2) = [2] | _ \<Rightarrow> False"
    by code_simp
  with w2(1) have "presses (events w2) = [2]" by simp
  moreover have "gpioa_odr w2 = led_pins ! 2" using w2(3) by (simp add: init_world_def)
  ultimately have kept: "\<exists>w2. player_says_loop 0 (round_game 1) ?v = Waiting w2 \<and>
      inputs w2 = [] \<and> gpioa_odr w2 = led_pins ! 2 \<and> presses (events w2) = [2]"
    using w2(1,2) by blast
  have held: "\<forall>s\<in>set (inputs ?u). \<forall>j<BUTTON_COUNT. button_active s j = (j = 2)"
  proof -
    have "j < BUTTON_COUNT \<Longrightarrow> button_active (holding 2) j = (j = 2)" for j
    proof -
      assume "j < BUTTON_COUNT"
      then have "j = 0 \<or> j = 1 \<or> j = 2 \<or> j = 3" by (auto simp: BUTTON_COUNT_def)
      then show ?thesis
        by (auto simp: button_active_def holding_def pin_level_def button_pins_def
            GPIO_PIN_3_def GPIO_PIN_4_def GPIO_PIN_5_def GPIO_PIN_6_def)
    qed
    then show ?thesis by (simp add: init_world_def)
  qed
  have pre: "0 \<le> current_level (round_game 1) \<and> 2 < BUTTON_COUNT \<and>
    (\<forall>s\<in>set (inputs ?u). \<forall>j<BUTTON_COUNT. button_active s j = (j = 2))"
    using held by (simp add: BUTTON_COUNT_def)
  from hold_until_release [where g = "round_game 1" and i = 0 and w = ?u and b = 2,
      THEN conjunct2, THEN conjunct2, THEN conjunct2, THEN conjunct1, rule_format, OF pre]
  have alone: "\<exists>w2 evs. player_says_loop 0 (round_game 1) ?u = Waiting w2 \<and> events w2 = evs \<and>
          presses evs = [2] \<and> gpioa_odr w2 = led_pins ! 2"
    by (auto simp: init_world_def)
  from ret shape kept alone anytime show ?thesis by blast
qed

subsection \<open>What every pass keeps\<close>

text \<open>
  The invariant of the outer loop: \<open>sequence\<close> has its \<open>MAX_LEVEL\<close> cells,
  \<open>current_level\<close> indexes one of them, and every cell holds a LED index.
\<close>

definition game_inv :: "game \<Rightarrow> bool" where
  "game_inv g = (length (sequence g) = MAX_LEVEL \<and> current_level g < MAX_LEVEL \<and>
                 list_all (\<lambda>x. x < LED_COUNT) (sequence g))"

lemma game_inv_main_init: "game_inv main_init"
  by (simp add: game_inv_def main_init_def MAX_LEVEL_def LED_COUNT_def list_all_iff)

lemma await_input_not_Fault:
  "i < length (sequence g) \<Longrightarrow> await_input g i w \<noteq> Fault"
proof (induction g i w rule: await_input.induct)
  case (1 g i w)
  show ?case
  proof (cases "GetPressedButtonIndex w")
    case (Done index w1)
    show ?thesis
    proof (cases "0 \<le> index")
      case True
      from "1.prems" have "array_get (sequence g) i = Some (sequence g ! i)"
        by (simp add: array_get_def)
      then show ?thesis
        unfolding await_input_pressed [OF Done True]
        by (simp add: wait_release_not_Fault split: outcome.splits)
    next
      case False
      with "1.IH" [OF Done False "1.prems"] Done show ?thesis
        by (simp add: await_input_none)
    qed
  next
    case (Waiting w1)
    then show ?thesis by (simp add: await_input_starved)
  next
    case Fault
    then show ?thesis by (simp add: GetPressedButtonIndex_not_Fault)
  qed
qed

lemma player_says_loop_not_Fault:
  "current_level g < length (sequence g) \<Longrightarrow> player_says_loop i g w \<noteq> Fault"
proof (induction i g w rule: player_says_loop.induct)
  case (1 i g w)
  show ?case
  proof (cases "i \<le> current_level g")
    case False
    then show ?thesis by (subst player_says_loop.simps) simp
  next
    case True
    with "1.prems" have "i < length (sequence g)" by simp
    from await_input_not_Fault [OF this] have nf: "await_input g i w \<noteq> Fault" .
    show ?thesis
    proof (cases "await_input g i w")
      case (Done g1 w1)
      show ?thesis
      proof (cases "state g1 \<noteq> PLAYER_SAYS")
        case T: True
        with True Done show ?thesis by (subst player_says_loop.simps) simp
      next
        case F: False
        from await_input_game [OF Done] "1.prems"
        have "current_level g1 < length (sequence g1)" by auto
        from "1.IH" [OF True Done F this] True Done F show ?thesis
          by (subst player_says_loop.simps) simp
      qed
    next
      case (Waiting w1)
      with True show ?thesis by (subst player_says_loop.simps) simp
    next
      case Fault
      with nf show ?thesis by simp
    qed
  qed
qed

lemma running_inner_Done: "i \<le> LED_COUNT \<Longrightarrow> \<exists>w'. running_inner i w = Done () w'"
proof (induction i w rule: running_inner.induct)
  case (1 i w)
  show ?case
  proof (cases "i < LED_COUNT")
    case False
    then show ?thesis by (subst running_inner.simps) simp
  next
    case True
    then have arr: "array_get led_pins i = Some (led_pins ! i)"
      by (simp add: array_get_def led_pins_def LED_COUNT_def)
    from True have "i + 1 \<le> LED_COUNT" by simp
    from "1.IH" [OF True arr this] True arr show ?thesis
      by (subst running_inner.simps) simp
  qed
qed

lemma running_outer_Done: "\<exists>w'. running_outer j w = Done () w'"
proof (induction j w rule: running_outer.induct)
  case (1 j w)
  show ?case
  proof (cases "j < 4")
    case False
    then show ?thesis by (subst running_outer.simps) simp
  next
    case True
    from running_inner_Done [of 0 w] obtain w1 where inner: "running_inner 0 w = Done () w1"
      by auto
    from "1.IH" [OF True inner] True inner show ?thesis
      by (subst running_outer.simps) simp
  qed
qed

lemma step_IDLE:
  "state g = IDLE \<Longrightarrow>
     step eng g w =
       (case inputs w of
          [] \<Rightarrow> Waiting w
        | s # rest \<Rightarrow>
            Done (if pin_level (gpioa_idr s) START_Pin = GPIO_PIN_RESET
                  then g\<lparr>generator := generator_seed (uptime s), current_level := 0,
                         state := SIMON_SAYS\<rparr>
                  else g)
              (after_read START_GPIO_Port START_Pin s w))"
  by (simp add: step_def HAL_GPIO_ReadPin_def HAL_GetTick_def START_GPIO_Port_def port_idr_def
      split: list.splits)

lemma step_GAME_OVER:
  "state g = GAME_OVER \<Longrightarrow> step eng g w = Done (g\<lparr>state := IDLE\<rparr>) (ToggleLEDsForGameOver w)"
  by (simp add: step_def)

lemma step_WIN:
  "state g = WIN \<Longrightarrow> \<exists>w'. RunningLightForWin w = Done () w' \<and>
     step eng g w = Done (g\<lparr>state := IDLE\<rparr>) w'"
  using running_outer_Done [of 0 w] by (auto simp: step_def RunningLightForWin_def)

lemma step_inv:
  assumes "game_inv g"
  shows "step eng g w \<noteq> Fault \<and> (step eng g w = Done g' w' \<longrightarrow> game_inv g')"
proof (cases "state g")
  case IDLE
  with assms show ?thesis
    by (auto simp: step_IDLE game_inv_def split: list.splits if_splits)
next
  case SIMON_SAYS
  from assms have pre: "current_level g < length (sequence g)"
    "\<forall>j<current_level g. sequence g ! j < LED_COUNT"
    by (simp_all add: game_inv_def list_all_length)
  let ?v = "fst (distrib eng (generator g))"
  have v: "?v < LED_COUNT"
    using distrib_range [of eng "generator g"] by (simp add: distrib_b_def LED_COUNT_def)
  from step_SIMON_SAYS [OF SIMON_SAYS pre, of eng w] obtain w1 where
    st: "step eng g w =
           Done (g\<lparr>generator := snd (distrib eng (generator g)),
                   sequence := (sequence g)[current_level g := ?v],
                   state := PLAYER_SAYS\<rparr>) w1"
    by blast
  have "list_all (\<lambda>x. x < LED_COUNT) ((sequence g)[current_level g := ?v])"
    using assms v by (auto simp: game_inv_def list_all_length nth_list_update)
  with assms st show ?thesis by (auto simp: game_inv_def)
next
  case PLAYER_SAYS
  from assms have "current_level g < length (sequence g)" by (simp add: game_inv_def)
  from player_says_loop_not_Fault [OF this] have nf: "step eng g w \<noteq> Fault"
    using PLAYER_SAYS by (auto simp: step_def split: outcome.splits)
  have "game_inv g'" if st: "step eng g w = Done g' w'"
  proof -
    from player_round [OF PLAYER_SAYS st]
    have "g' = (if current_level g = MAX_LEVEL - 1 then g\<lparr>state := WIN\<rparr>
             else g\<lparr>current_level := (current_level g + 1) mod 256, state := SIMON_SAYS\<rparr>) \<or>
          g' = g\<lparr>state := GAME_OVER\<rparr>"
      by blast
    with assms show ?thesis
      by (auto simp: game_inv_def MAX_LEVEL_def split: if_splits)
  qed
  with nf show ?thesis by blast
next
  case GAME_OVER
  with assms show ?thesis by (auto simp: step_GAME_OVER game_inv_def)
next
  case WIN
  from step_WIN [OF WIN, of w eng] assms show ?thesis by (auto simp: game_inv_def)
qed

lemma run_inv:
  "game_inv g \<Longrightarrow> run eng n g w \<noteq> Fault \<and> (run eng n g w = Done g' w' \<longrightarrow> game_inv g')"
proof (induction n arbitrary: g w)
  case 0
  then show ?case by auto
next
  case (Suc n)
  show ?case
  proof (cases "step eng g w")
    case (Done g1 w1)
    with step_inv [OF Suc.prems, of eng w g1 w1] have "game_inv g1" by simp
    from Suc.IH [OF this, of w1] Done show ?thesis by simp
  next
    case (Waiting w1)
    then show ?thesis by simp
  next
    case Fault
    with step_inv [OF Suc.prems, of eng w] show ?thesis by simp
  qed
qed

text \<open>
  A session: Start held at tick 7, the first demonstration, and the player tapping the
  demonstrated button 2.
\<close>

definition start_held :: "nat \<Rightarrow> sample" where
  "start_held t = \<lparr>uptime = t, gpioa_idr = 0xFFFE, gpiob_idr = 0xFFFF\<rparr>"

definition first_round :: "sample list" where
  "first_round = start_held 7 # tap 2"

text \<open>The same session with one scan that finds nothing before the tap.\<close>

definition hesitant_round :: "sample list" where
  "hesitant_round = start_held 7 # replicate 4 released @ tap 2"

text \<open>What the scan result says about the two arrays it indexes.\<close>

lemma array_at_scan_result:
  assumes "GetPressedButtonIndex w = Done r w'"
  shows "if 0 \<le> r
         then r \<le> 3 \<and> array_at led_pins r = Some (led_pins ! nat r) \<and>
              array_at button_pins r = Some (button_pins ! nat r)
         else r = - 1 \<and> array_at led_pins r = None \<and> array_at button_pins r = None \<and>
              await_input h i w = await_input h i w'"
proof (cases "0 \<le> r")
  case True
  with GetPressedButtonIndex_Done [OF assms] have "nat r < BUTTON_COUNT" by auto
  with True show ?thesis
    by (simp add: array_at_def led_pins_def button_pins_def BUTTON_COUNT_def)
next
  case False
  with GetPressedButtonIndex_Done [OF assms] have "r = - 1" by auto
  moreover from False have "r < 0" by simp
  with assms have "await_input h i w = await_input h i w'" by (rule await_input_none)
  ultimately show ?thesis by (simp add: array_at_def)
qed

text \<open>Only the player's round adds to \<open>current_level\<close>, and only below the last level.\<close>

lemma step_increment:
  assumes "game_inv g" "step eng g w = Done g' w'" "current_level g' = current_level g + 1"
  shows "state g = PLAYER_SAYS \<and> state g' = SIMON_SAYS \<and> current_level g < MAX_LEVEL - 1"
proof (cases "state g")
  case IDLE
  with assms(2,3) show ?thesis
    by (auto simp: step_IDLE split: list.splits if_splits)
next
  case SIMON_SAYS
  from assms(1) have pre: "current_level g < length (sequence g)"
    "\<forall>j<current_level g. sequence g ! j < LED_COUNT"
    by (simp_all add: game_inv_def list_all_length)
  from step_SIMON_SAYS [OF SIMON_SAYS pre, of eng w] assms(2,3) show ?thesis by auto
next
  case PLAYER_SAYS
  from assms(1) have lvl: "current_level g < MAX_LEVEL"
    and small: "(current_level g + 1) mod 256 = current_level g + 1"
    by (simp_all add: game_inv_def MAX_LEVEL_def)
  from player_round [OF PLAYER_SAYS assms(2)]
  have "g' = (if current_level g = MAX_LEVEL - 1 then g\<lparr>state := WIN\<rparr>
           else g\<lparr>current_level := (current_level g + 1) mod 256, state := SIMON_SAYS\<rparr>) \<or>
        g' = g\<lparr>state := GAME_OVER\<rparr>"
    by blast
  with assms(3) small have "current_level g \<noteq> MAX_LEVEL - 1 \<and> state g' = SIMON_SAYS"
    by (auto split: if_splits)
  with lvl PLAYER_SAYS show ?thesis by auto
next
  case GAME_OVER
  with assms(2,3) show ?thesis by (auto simp: step_GAME_OVER)
next
  case WIN
  from step_WIN [OF WIN, of w eng] assms(2,3) show ?thesis by auto
qed

text \<open>
  C10. Every array access of the model has a \<open>Fault\<close> branch for an index out of
  range, the negative ones included, and no number of passes from the initial state,
  over any inputs, reaches it. After any number of passes \<open>sequence\<close> still has
  \<open>MAX_LEVEL\<close> cells, \<open>current_level\<close> is at most \<open>MAX_LEVEL - 1\<close> and every cell of
  \<open>sequence\<close> is at most 3. A pass from a state so reached adds one to \<open>current_level\<close>
  only in \<open>PLAYER_SAYS\<close> and only when it is below \<open>MAX_LEVEL - 1\<close>. A scan result that
  is not negative is at most 3 and in range for \<open>led_pins\<close> and \<open>button_pins\<close>. The
  negative result is -1, which is out of range for both, and on it the loop
  \<open>while (!flag)\<close> goes on to the next scan with nothing else done. So that loop never
  faults, at any position inside \<open>sequence\<close>.
\<close>

theorem array_accesses_in_bounds:
  "run eng n main_init w \<noteq> Fault \<and>
   (run eng n main_init w = Done g w' \<longrightarrow>
      length (sequence g) = MAX_LEVEL \<and> current_level g \<le> MAX_LEVEL - 1 \<and>
      (\<forall>x\<in>set (sequence g). x \<le> 3)) \<and>
   (run eng n main_init w = Done g w' \<and> step eng g w' = Done g2 w2 \<and>
    current_level g2 = current_level g + 1 \<longrightarrow>
      state g = PLAYER_SAYS \<and> state g2 = SIMON_SAYS \<and> current_level g < MAX_LEVEL - 1) \<and>
   (GetPressedButtonIndex w = Done r w' \<longrightarrow>
      (if 0 \<le> r
       then r \<le> 3 \<and> array_at led_pins r = Some (led_pins ! nat r) \<and>
            array_at button_pins r = Some (button_pins ! nat r)
       else r = - 1 \<and> array_at led_pins r = None \<and> array_at button_pins r = None \<and>
            await_input h i w = await_input h i w')) \<and>
   (i < length (sequence h) \<longrightarrow> await_input h i w \<noteq> Fault)"
proof (intro conjI impI)
  show "run eng n main_init w \<noteq> Fault"
    using run_inv [OF game_inv_main_init] by blast
next
  assume "run eng n main_init w = Done g w'"
  with run_inv [OF game_inv_main_init, of eng n w g w'] have inv: "game_inv g" by blast
  then show "length (sequence g) = MAX_LEVEL" by (simp add: game_inv_def)
  from inv show "current_level g \<le> MAX_LEVEL - 1" by (simp add: game_inv_def MAX_LEVEL_def)
  from inv show "\<forall>x\<in>set (sequence g). x \<le> 3"
    by (auto simp: game_inv_def list_all_iff LED_COUNT_def)
next
  assume a: "run eng n main_init w = Done g w' \<and> step eng g w' = Done g2 w2 \<and>
    current_level g2 = current_level g + 1"
  with run_inv [OF game_inv_main_init, of eng n w g w'] have inv: "game_inv g" by blast
  from a have "step eng g w' = Done g2 w2" "current_level g2 = current_level g + 1" by blast+
  from step_increment [OF inv this]
  show "state g = PLAYER_SAYS" "state g2 = SIMON_SAYS" "current_level g < MAX_LEVEL - 1"
    by blast+
next
  assume "GetPressedButtonIndex w = Done r w'"
  then show "if 0 \<le> r
       then r \<le> 3 \<and> array_at led_pins r = Some (led_pins ! nat r) \<and>
            array_at button_pins r = Some (button_pins ! nat r)
       else r = - 1 \<and> array_at led_pins r = None \<and> array_at button_pins r = None \<and>
            await_input h i w = await_input h i w'"
    by (rule array_at_scan_result)
next
  assume "i < length (sequence h)"
  then show "await_input h i w \<noteq> Fault" by (rule await_input_not_Fault)
qed

text \<open>
  A session in which the player lets one scan pass before tapping button 2: three
  passes reach the second demonstration, and the pass that added to \<open>current_level\<close>
  started in \<open>PLAYER_SAYS\<close> at level 0. The scan over four samples with nothing pressed
  answers -1, which neither array has.
\<close>

theorem array_accesses_in_bounds_witness:
  "run scenario_engine 3 main_init (init_world hesitant_round) \<noteq> Fault \<and>
   (\<exists>g w' g2 w2.
      run scenario_engine 2 main_init (init_world hesitant_round) = Done g w' \<and>
      step scenario_engine g w' = Done g2 w2 \<and>
      run scenario_engine 3 main_init (init_world hesitant_round) = Done g2 w2 \<and>
      state g = PLAYER_SAYS \<and> current_level g = 0 \<and> current_level g < MAX_LEVEL - 1 \<and>
      state g2 = SIMON_SAYS \<and> current_level g2 = 1 \<and> length (sequence g2) = MAX_LEVEL \<and>
      current_level g2 \<le> MAX_LEVEL - 1) \<and>
   (\<exists>w'. GetPressedButtonIndex (init_world (replicate 4 released)) = Done (- 1) w' \<and>
      array_at led_pins (- 1) = None \<and> array_at button_pins (- 1) = None) \<and>
   await_input (round_game 0) 0 (init_world (replicate 4 released @ tap 2)) \<noteq> Fault"
proof -
  let ?w = "init_world hesitant_round"
  let ?v = "init_world (replicate 4 released)"
  have "case run scenario_engine 2 main_init ?w of
          Done g w' \<Rightarrow>
            (case step scenario_engine g w' of
               Done g2 w2 \<Rightarrow> current_level g = 0 \<and> current_level g2 = 1
             | _ \<Rightarrow> False)
        | _ \<Rightarrow> False"
    by code_simp
  then obtain g w' g2 w2 where r: "run scenario_engine 2 main_init ?w = Done g w'"
    "step scenario_engine g w' = Done g2 w2" "current_level g = 0" "current_level g2 = 1"
    by (auto split: outcome.splits)
  have "case run scenario_engine 3 main_init ?w of
          Done g3 w3 \<Rightarrow>
            (case run scenario_engine 2 main_init ?w of
               Done g w' \<Rightarrow> step scenario_engine g w' = Done g3 w3
             | _ \<Rightarrow> False)
        | _ \<Rightarrow> False"
    by code_simp
  with r(1,2) have r3: "run scenario_engine 3 main_init ?w = Done g2 w2"
    by (auto split: outcome.splits)
  have "case GetPressedButtonIndex ?v of Done r v' \<Rightarrow> r = - 1 | _ \<Rightarrow> False"
    by code_simp
  then obtain v' where s: "GetPressedButtonIndex ?v = Done (- 1) v'"
    by (auto split: outcome.splits)
  from array_accesses_in_bounds [where eng = scenario_engine and n = 3 and w = ?w and
      g = g2 and w' = w2] r3
  have a: "run scenario_engine 3 main_init ?w \<noteq> Fault"
    "length (sequence g2) = MAX_LEVEL \<and> current_level g2 \<le> MAX_LEVEL - 1"
    by blast+
  from array_accesses_in_bounds [where eng = scenario_engine and n = 2 and w = ?w and
      g = g and w' = w' and ?g2.0 = g2 and ?w2.0 = w2] r
  have b: "state g = PLAYER_SAYS \<and> state g2 = SIMON_SAYS \<and> current_level g < MAX_LEVEL - 1"
    by simp
  from array_accesses_in_bounds [where w = ?v and w' = v' and r = "- 1"] s
  have c: "array_at led_pins (- 1) = None \<and> array_at button_pins (- 1) = None"
    by simp
  from array_accesses_in_bounds [where w = "init_world (replicate 4 released @ tap 2)" and
      h = "round_game 0" and i = 0]
  have d: "await_input (round_game 0) 0 (init_world (replicate 4 released @ tap 2)) \<noteq> Fault"
    by (simp add: round_game_def)
  from a b c d r r3 s show ?thesis by blast
qed

text \<open>
  C3. At every entry to \<open>SIMON_SAYS\<close> that a run from the initial state reaches, the
  pass returns. It draws one index from the generator, stores it at position
  \<open>current_level\<close> (nothing else of \<open>sequence\<close> changes), then pulses the LEDs of
  \<open>sequence[0]\<close>, ..., \<open>sequence[current_level]\<close> in that order, each on for
  \<open>GAME_SPEED_MS\<close> and off for \<open>GAME_SPEED_MS\<close>, reads no input, and leaves the state
  at \<open>PLAYER_SAYS\<close>.
\<close>

theorem demonstrate_round:
  assumes "run eng n main_init w0 = Done g w" "state g = SIMON_SAYS"
  shows "\<exists>w'. step eng g w =
           Done (g\<lparr>generator := snd (distrib eng (generator g)),
                   sequence := (sequence g)[current_level g := fst (distrib eng (generator g))],
                   state := PLAYER_SAYS\<rparr>) w' \<and>
         events w' = events w @
           concat (map (\<lambda>j. pulse ((sequence g)
                                [current_level g := fst (distrib eng (generator g))] ! j))
                     [0..<Suc (current_level g)]) \<and>
         inputs w' = inputs w"
proof -
  from run_inv [OF game_inv_main_init, of eng n w0 g w] assms(1) have "game_inv g" by blast
  then have pre: "current_level g < length (sequence g)"
    "\<forall>j<current_level g. sequence g ! j < LED_COUNT"
    by (simp_all add: game_inv_def list_all_length)
  from step_SIMON_SAYS [OF assms(2) pre] show ?thesis .
qed

text \<open>The second demonstration of a session: LED 2 again, then the new LED 0.\<close>

theorem demonstrate_round_witness:
  "\<exists>g w w'. run scenario_engine 3 main_init (init_world first_round) = Done g w \<and>
     state g = SIMON_SAYS \<and> current_level g = 1 \<and>
     step scenario_engine g w =
       Done \<lparr>state = PLAYER_SAYS, sequence = [2, 0, 0, 0, 0], current_level = 1,
             generator = \<lparr>seeded = 7, drawn = 2\<rparr>\<rparr> w' \<and>
     events w' = events w @ pulse 2 @ pulse 0"
proof -
  have "case run scenario_engine 3 main_init (init_world first_round) of
          Done g w \<Rightarrow> state g = SIMON_SAYS \<and> sequence g = [2, 0, 0, 0, 0] \<and>
            current_level g = 1 \<and> seeded (generator g) = 7 \<and> drawn (generator g) = 1
        | _ \<Rightarrow> False"
    by code_simp
  then obtain g w where r: "run scenario_engine 3 main_init (init_world first_round) = Done g w"
    "state g = SIMON_SAYS" "sequence g = [2, 0, 0, 0, 0]" "current_level g = 1"
    "seeded (generator g) = 7" "drawn (generator g) = 1"
    by (auto split: outcome.splits)
  have draw: "distrib scenario_engine (generator g) = (0, \<lparr>seeded = 7, drawn = 2\<rparr>)"
    using r(5,6)
    by (cases "generator g") (simp add: distrib_def scenario_engine_def distrib_a_def distrib_b_def)
  have g: "g\<lparr>generator := \<lparr>seeded = 7, drawn = 2\<rparr>, sequence := [2, 0, 0, 0, 0],
             state := PLAYER_SAYS\<rparr> =
           \<lparr>state = PLAYER_SAYS, sequence = [2, 0, 0, 0, 0], current_level = 1,
            generator = \<lparr>seeded = 7, drawn = 2\<rparr>\<rparr>"
    using r(4) by (cases g) simp
  from demonstrate_round [OF r(1,2)] obtain w' where
    "step scenario_engine g w =
       Done (g\<lparr>generator := \<lparr>seeded = 7, drawn = 2\<rparr>, sequence := [2, 0, 0, 0, 0],
               state := PLAYER_SAYS\<rparr>) w'"
    "events w' = events w @ pulse 2 @ pulse 0"
    unfolding draw using r(3,4) by auto
  with r g show ?thesis by metis
qed

text \<open>
  C5. The index that \<open>distrib\<close> returns is at most 3 for every engine and every
  generator state, and after any number of passes from the initial state every cell of
  \<open>sequence\<close> is between 0 and 3.
\<close>

theorem generated_indices_in_range:
  "fst (distrib eng gen) \<le> 3 \<and>
   (run eng n main_init w = Done g w' \<longrightarrow> (\<forall>x\<in>set (sequence g). 0 \<le> x \<and> x \<le> 3))"
proof (intro conjI impI)
  show "fst (distrib eng gen) \<le> 3"
    using distrib_range [of eng gen] by (simp add: distrib_b_def)
next
  assume "run eng n main_init w = Done g w'"
  with run_inv [OF game_inv_main_init, of eng n w g w'] have "game_inv g" by blast
  then show "\<forall>x\<in>set (sequence g). 0 \<le> x \<and> x \<le> 3"
    by (auto simp: game_inv_def list_all_iff LED_COUNT_def)
qed

theorem generated_indices_in_range_witness:
  "fst (distrib scenario_engine (generator_seed 7)) \<le> 3 \<and>
   (\<exists>g w'. run scenario_engine 2 main_init (init_world first_round) = Done g w' \<and>
      sequence g = [2, 0, 0, 0, 0] \<and> (\<forall>x\<in>set (sequence g). 0 \<le> x \<and> x \<le> 3))"
proof -
  let ?w = "init_world first_round"
  have "case run scenario_engine 2 main_init ?w of
          Done g w' \<Rightarrow> sequence g = [2, 0, 0, 0, 0] | _ \<Rightarrow> False"
    by code_simp
  then obtain g w' where r: "run scenario_engine 2 main_init ?w = Done g w'"
    "sequence g = [2, 0, 0, 0, 0]"
    by (auto split: outcome.splits)
  from generated_indices_in_range [of scenario_engine "generator_seed 7" 2 ?w g w'] r
  show ?thesis by blast
qed

subsection \<open>Starting again\<close>

lemma step_level:
  assumes "game_inv g" "step eng g w = Done g' w'" "\<not> (state g = IDLE \<and> state g' = SIMON_SAYS)"
  shows "current_level g' = current_level g \<or> current_level g' = current_level g + 1"
proof (cases "state g")
  case IDLE
  with assms(2,3) show ?thesis
    by (auto simp: step_IDLE split: list.splits if_splits)
next
  case SIMON_SAYS
  from assms(1) have pre: "current_level g < length (sequence g)"
    "\<forall>j<current_level g. sequence g ! j < LED_COUNT"
    by (simp_all add: game_inv_def list_all_length)
  from step_SIMON_SAYS [OF SIMON_SAYS pre, of eng w] assms(2) show ?thesis by auto
next
  case PLAYER_SAYS
  from assms(1) have "(current_level g + 1) mod 256 = current_level g + 1"
    by (simp add: game_inv_def MAX_LEVEL_def)
  moreover from player_round [OF PLAYER_SAYS assms(2)]
  have "g' = (if current_level g = MAX_LEVEL - 1 then g\<lparr>state := WIN\<rparr>
           else g\<lparr>current_level := (current_level g + 1) mod 256, state := SIMON_SAYS\<rparr>) \<or>
        g' = g\<lparr>state := GAME_OVER\<rparr>"
    by blast
  ultimately show ?thesis by (auto split: if_splits)
next
  case GAME_OVER
  with assms(2) show ?thesis by (auto simp: step_GAME_OVER)
next
  case WIN
  from step_WIN [OF WIN, of w eng] assms(2) show ?thesis by auto
qed

text \<open>
  C9. \<open>GAME_OVER\<close> and \<open>WIN\<close> return to \<open>IDLE\<close> and change nothing else of the game.
  From \<open>IDLE\<close>, whatever \<open>sequence\<close>, \<open>current_level\<close> and the generator hold, a read
  that finds Start active seeds the generator from the tick of that moment and sets
  \<open>current_level\<close> to 0, and the demonstration that follows stores at \<open>sequence[0]\<close>
  the first draw of the generator seeded so. In a reachable state every other pass
  leaves \<open>current_level\<close> as it is or adds one to it.
\<close>

theorem new_session_starts_fresh:
  "(state g = GAME_OVER \<or> state g = WIN \<longrightarrow> (\<exists>w'. step eng g w = Done (g\<lparr>state := IDLE\<rparr>) w')) \<and>
   (state g = IDLE \<and> inputs w = s # rest \<and> pin_level (gpioa_idr s) START_Pin = GPIO_PIN_RESET \<and>
    length (sequence g) = MAX_LEVEL \<longrightarrow>
      (\<exists>g1 w1 g2 w2.
         step eng g w = Done g1 w1 \<and> state g1 = SIMON_SAYS \<and> current_level g1 = 0 \<and>
         generator g1 = generator_seed (uptime s) \<and>
         step eng g1 w1 = Done g2 w2 \<and> state g2 = PLAYER_SAYS \<and> current_level g2 = 0 \<and>
         sequence g2 ! 0 = fst (distrib eng (generator_seed (uptime s))))) \<and>
   (run eng n main_init w0 = Done g w \<and> step eng g w = Done g' w' \<and>
    \<not> (state g = IDLE \<and> state g' = SIMON_SAYS) \<longrightarrow>
      current_level g' = current_level g \<or> current_level g' = current_level g + 1)"
proof (intro conjI impI)
  assume "state g = GAME_OVER \<or> state g = WIN"
  then show "\<exists>w'. step eng g w = Done (g\<lparr>state := IDLE\<rparr>) w'"
    using step_WIN [of g w eng] by (auto simp: step_GAME_OVER)
next
  assume a: "state g = IDLE \<and> inputs w = s # rest \<and>
    pin_level (gpioa_idr s) START_Pin = GPIO_PIN_RESET \<and> length (sequence g) = MAX_LEVEL"
  let ?g1 = "g\<lparr>generator := generator_seed (uptime s), current_level := 0, state := SIMON_SAYS\<rparr>"
  let ?w1 = "after_read START_GPIO_Port START_Pin s w"
  let ?v = "fst (distrib eng (generator_seed (uptime s)))"
  from a have st1: "step eng g w = Done ?g1 ?w1" by (simp add: step_IDLE)
  have pre: "state ?g1 = SIMON_SAYS" "current_level ?g1 < length (sequence ?g1)"
    "\<forall>j<current_level ?g1. sequence ?g1 ! j < LED_COUNT"
    using a by (simp_all add: MAX_LEVEL_def)
  from step_SIMON_SAYS [OF pre, of eng ?w1] obtain w2 where
    st2: "step eng ?g1 ?w1 =
            Done (?g1\<lparr>generator := snd (distrib eng (generator ?g1)),
                     sequence := (sequence ?g1)[current_level ?g1 := fst (distrib eng (generator ?g1))],
                     state := PLAYER_SAYS\<rparr>) w2"
    by blast
  let ?g2 = "?g1\<lparr>generator := snd (distrib eng (generator ?g1)),
                 sequence := (sequence ?g1)[current_level ?g1 := fst (distrib eng (generator ?g1))],
                 state := PLAYER_SAYS\<rparr>"
  have "state ?g2 = PLAYER_SAYS" "current_level ?g2 = 0" "sequence ?g2 ! 0 = ?v"
    using a by (simp_all add: MAX_LEVEL_def)
  moreover have "state ?g1 = SIMON_SAYS" "current_level ?g1 = 0"
    "generator ?g1 = generator_seed (uptime s)"
    by simp_all
  ultimately show "\<exists>g1 w1 g2 w2.
         step eng g w = Done g1 w1 \<and> state g1 = SIMON_SAYS \<and> current_level g1 = 0 \<and>
         generator g1 = generator_seed (uptime s) \<and>
         step eng g1 w1 = Done g2 w2 \<and> state g2 = PLAYER_SAYS \<and> current_level g2 = 0 \<and>
         sequence g2 ! 0 = fst (distrib eng (generator_seed (uptime s)))"
    using st1 st2 by blast
next
  assume a: "run eng n main_init w0 = Done g w \<and> step eng g w = Done g' w' \<and>
    \<not> (state g = IDLE \<and> state g' = SIMON_SAYS)"
  with run_inv [OF game_inv_main_init, of eng n w0 g w] have "game_inv g" by blast
  with a show "current_level g' = current_level g \<or> current_level g' = current_level g + 1"
    using step_level by blast
qed

text \<open>
  An engine whose draws depend on the seed, and two sessions: Start at tick 7, a wrong
  tap, then Start again at tick 9.
\<close>

definition seeded_engine :: engine where
  "seeded_engine s k = s + k"

definition two_sessions :: "sample list" where
  "two_sessions = start_held 7 # tap 0 @ [start_held 9]"

theorem new_session_starts_fresh_witness:
  "\<exists>g w g1 w1 g2 w2.
     run seeded_engine 4 main_init (init_world two_sessions) = Done g w \<and>
     state g = IDLE \<and> sequence g ! 0 = 3 \<and>
     step seeded_engine g w = Done g1 w1 \<and> state g1 = SIMON_SAYS \<and> current_level g1 = 0 \<and>
     step seeded_engine g1 w1 = Done g2 w2 \<and> current_level g2 = 0 \<and> sequence g2 ! 0 = 1"
proof -
  have "case run seeded_engine 4 main_init (init_world two_sessions) of
          Done g w \<Rightarrow> state g = IDLE \<and> sequence g ! 0 = 3 \<and>
            length (sequence g) = MAX_LEVEL \<and> inputs w = [start_held 9]
        | _ \<Rightarrow> False"
    by code_simp
  then obtain g w where r: "run seeded_engine 4 main_init (init_world two_sessions) = Done g w"
    "state g = IDLE" "sequence g ! 0 = 3" "length (sequence g) = MAX_LEVEL"
    "inputs w = [start_held 9]"
    by (auto split: outcome.splits)
  have start: "pin_level (gpioa_idr (start_held 9)) START_Pin = GPIO_PIN_RESET"
    by (simp add: start_held_def pin_level_def START_Pin_def GPIO_PIN_0_def)
  have draw: "fst (distrib seeded_engine (generator_seed (uptime (start_held 9)))) = 1"
    by (simp add: distrib_def seeded_engine_def generator_seed_def start_held_def
        distrib_a_def distrib_b_def)
  from new_session_starts_fresh [of g seeded_engine w "start_held 9" "[]",
      THEN conjunct2, THEN conjunct1, rule_format] r(2,4,5) start
  have "\<exists>g1 w1 g2 w2.
         step seeded_engine g w = Done g1 w1 \<and> state g1 = SIMON_SAYS \<and> current_level g1 = 0 \<and>
         generator g1 = generator_seed (uptime (start_held 9)) \<and>
         step seeded_engine g1 w1 = Done g2 w2 \<and> state g2 = PLAYER_SAYS \<and>
         current_level g2 = 0 \<and>
         sequence g2 ! 0 = fst (distrib seeded_engine (generator_seed (uptime (start_held 9))))"
    by blast
  with r(1,2,3) draw show ?thesis by metis
qed

subsection \<open>The LEDs\<close>

text \<open>
  \<open>leds_lit\<close> counts the LED pins that are set in a value of the output register.
  \<open>all_leds\<close> is the mask that \<open>ToggleLEDsForGameOver\<close> toggles.
\<close>

definition leds_lit :: "u16 \<Rightarrow> nat" where
  "leds_lit odr = length (filter (\<lambda>pin. odr AND pin \<noteq> 0) led_pins)"

definition at_most_one_led :: "u16 \<Rightarrow> bool" where
  "at_most_one_led odr = (leds_lit odr \<le> 1)"

definition all_leds :: u16 where
  "all_leds = led_pins ! 0 OR led_pins ! 1 OR led_pins ! 2 OR led_pins ! 3"

text \<open>Since \<open>w\<close>, the LED register of \<open>w'\<close> has only taken values with at most one LED on.\<close>

definition single_led_since :: "world \<Rightarrow> world \<Rightarrow> bool" where
  "single_led_since w w' =
     (take (length (odr_hist w)) (odr_hist w') = odr_hist w \<and>
      list_all at_most_one_led (drop (length (odr_hist w)) (odr_hist w')))"

lemma single_led_since_iff:
  "single_led_since w w' \<longleftrightarrow>
     (\<exists>hist. odr_hist w' = odr_hist w @ hist \<and> list_all at_most_one_led hist)"
proof
  assume "single_led_since w w'"
  then have "odr_hist w' = odr_hist w @ drop (length (odr_hist w)) (odr_hist w') \<and>
    list_all at_most_one_led (drop (length (odr_hist w)) (odr_hist w'))"
    by (metis single_led_since_def append_take_drop_id)
  then show "\<exists>hist. odr_hist w' = odr_hist w @ hist \<and> list_all at_most_one_led hist" by blast
next
  assume "\<exists>hist. odr_hist w' = odr_hist w @ hist \<and> list_all at_most_one_led hist"
  then show "single_led_since w w'" by (auto simp: single_led_since_def)
qed

lemma single_led_since_same: "odr_hist w' = odr_hist w \<Longrightarrow> single_led_since w w'"
  by (simp add: single_led_since_def)

lemma single_led_since_trans:
  "single_led_since w w1 \<Longrightarrow> single_led_since w1 w2 \<Longrightarrow> single_led_since w w2"
  by (auto simp: single_led_since_iff)

lemma single_led_since_more:
  "single_led_since w w1 \<Longrightarrow> odr_hist w2 = odr_hist w1 @ hist \<Longrightarrow>
     list_all at_most_one_led hist \<Longrightarrow> single_led_since w w2"
  by (auto simp: single_led_since_iff)

lemma led_on_off:
  assumes "i < LED_COUNT"
  shows "at_most_one_led (0 OR led_pins ! i)" "(0 OR led_pins ! i) AND NOT (led_pins ! i) = 0"
    "at_most_one_led 0"
proof -
  from assms have "i = 0 \<or> i = 1 \<or> i = 2 \<or> i = 3" by (auto simp: LED_COUNT_def)
  then show "at_most_one_led (0 OR led_pins ! i)"
    by (auto simp: at_most_one_led_def leds_lit_def led_pins_def GPIO_PIN_3_def GPIO_PIN_4_def
        GPIO_PIN_5_def GPIO_PIN_6_def)
  show "(0 OR led_pins ! i) AND NOT (led_pins ! i) = 0" by simp
  show "at_most_one_led 0" by (simp add: at_most_one_led_def leds_lit_def)
qed

lemma await_input_leds:
  "gpioa_odr w = 0 \<Longrightarrow>
     (await_input g i w = Done g' w' \<longrightarrow> gpioa_odr w' = 0 \<and> single_led_since w w') \<and>
     (await_input g i w = Waiting w' \<longrightarrow> single_led_since w w')"
proof (induction g i w rule: await_input.induct)
  case (1 g i w)
  show ?case
  proof (cases "GetPressedButtonIndex w")
    case (Done index w1)
    from GetPressedButtonIndex_Done [OF Done] have
      scan: "index = - 1 \<or> (0 \<le> index \<and> nat index < BUTTON_COUNT)"
        "gpioa_odr w1 = gpioa_odr w" "odr_hist w1 = odr_hist w"
      by blast+
    show ?thesis
    proof (cases "0 \<le> index")
      case True
      let ?led = "led_pins ! nat index"
      let ?on = "HAL_Delay GAME_SPEED_MS (HAL_GPIO_WritePin GPIOA ?led GPIO_PIN_SET w1)"
      from scan(1) True have "nat index < LED_COUNT"
        by (auto simp: BUTTON_COUNT_def LED_COUNT_def)
      note led = led_on_off [OF this]
      have on: "odr_hist ?on = odr_hist w @ [0 OR ?led]" "gpioa_odr ?on = 0 OR ?led"
        using scan(2,3) "1.prems" by simp_all
      have lit: "single_led_since w ?on"
        using on(1) led(1) by (simp add: single_led_since_iff)
      show ?thesis
      proof (cases "wait_release (button_pins ! nat index) ?on")
        case wr: (Done u w2)
        from wait_release_Done [OF wr] have
          w2: "gpioa_odr w2 = gpioa_odr ?on" "odr_hist w2 = odr_hist ?on"
          by blast+
        let ?off = "HAL_Delay GAME_SPEED_MS (HAL_GPIO_WritePin GPIOA ?led GPIO_PIN_RESET w2)"
        have off: "gpioa_odr ?off = 0" "odr_hist ?off = odr_hist w @ [0 OR ?led, 0]"
          using w2 on led(2) by simp_all
        then have "single_led_since w ?off"
          using led(1,3) by (simp add: single_led_since_iff)
        with off(1) show ?thesis
          unfolding await_input_pressed [OF Done True] wr
          by (auto split: option.splits)
      next
        case wr: (Waiting w2)
        from wait_release_Waiting [OF wr] have "odr_hist w2 = odr_hist ?on" by blast
        with on(1) led(1) have "single_led_since w w2"
          by (simp add: single_led_since_iff)
        then show ?thesis
          unfolding await_input_pressed [OF Done True] wr by auto
      next
        case Fault
        then show ?thesis by (simp add: wait_release_not_Fault)
      qed
    next
      case False
      from scan(2) "1.prems" have "gpioa_odr w1 = 0" by simp
      from "1.IH" [OF Done False this] scan(3) False Done show ?thesis
        by (auto simp: await_input_none single_led_since_def)
    qed
  next
    case (Waiting w1)
    from GetPressedButtonIndex_Waiting [OF Waiting] have "odr_hist w1 = odr_hist w" by blast
    then show ?thesis
      unfolding await_input_starved [OF Waiting] by (auto simp: single_led_since_same)
  next
    case Fault
    then show ?thesis by (simp add: GetPressedButtonIndex_not_Fault)
  qed
qed

lemma player_says_loop_leds:
  "gpioa_odr w = 0 \<Longrightarrow>
     (player_says_loop i g w = Done g' w' \<longrightarrow> gpioa_odr w' = 0 \<and> single_led_since w w') \<and>
     (player_says_loop i g w = Waiting w' \<longrightarrow> single_led_since w w')"
proof (induction i g w rule: player_says_loop.induct)
  case (1 i g w)
  show ?case
  proof (cases "i \<le> current_level g")
    case False
    with "1.prems" show ?thesis
      by (subst (1 2) player_says_loop.simps) (auto simp: single_led_since_same)
  next
    case True
    show ?thesis
    proof (cases "await_input g i w")
      case (Done g1 w1)
      from await_input_leds [OF "1.prems", of g i g1 w1] Done
      have w1: "gpioa_odr w1 = 0" "single_led_since w w1" by simp_all
      show ?thesis
      proof (cases "state g1 \<noteq> PLAYER_SAYS")
        case T: True
        with True Done w1 show ?thesis
          by (subst (1 2) player_says_loop.simps) auto
      next
        case F: False
        from "1.IH" [OF True Done F w1(1)] w1(2) True Done F show ?thesis
          by (subst (1 2) player_says_loop.simps) (auto intro: single_led_since_trans)
      qed
    next
      case (Waiting w1)
      from await_input_leds [OF "1.prems", of g i _ w1] Waiting
      have "single_led_since w w1" by simp
      with True Waiting show ?thesis
        by (subst (1 2) player_says_loop.simps) auto
    next
      case Fault
      with True show ?thesis by (subst (1 2) player_says_loop.simps) auto
    qed
  qed
qed

lemma simon_says_loop_leds:
  "gpioa_odr w = 0 \<Longrightarrow> simon_says_loop i g w = Done g' w' \<Longrightarrow>
     gpioa_odr w' = 0 \<and> single_led_since w w'"
proof (induction i g w rule: simon_says_loop.induct)
  case (1 i g w)
  show ?case
  proof (cases "i \<le> current_level g")
    case False
    with "1.prems" show ?thesis
      by (subst (asm) simon_says_loop.simps) (auto simp: single_led_since_same)
  next
    case True
    with "1.prems"(2) obtain s led where
      arr: "array_get (sequence g) i = Some s" "array_get led_pins s = Some led"
      by (subst (asm) simon_says_loop.simps) (auto split: option.splits)
    then have s: "s < LED_COUNT" and led_eq: "led = led_pins ! s"
      by (auto simp: array_get_def led_pins_def LED_COUNT_def split: if_splits)
    note led = led_on_off [OF s]
    let ?w = "HAL_Delay GAME_SPEED_MS (HAL_GPIO_WritePin GPIOA led GPIO_PIN_RESET
                (HAL_Delay GAME_SPEED_MS (HAL_GPIO_WritePin GPIOA led GPIO_PIN_SET w)))"
    have w1: "gpioa_odr ?w = 0" "odr_hist ?w = odr_hist w @ [0 OR led_pins ! s, 0]"
      using "1.prems"(1) led(2) led_eq by simp_all
    then have since: "single_led_since w ?w"
      using led(1,3) by (simp add: single_led_since_iff)
    from "1.prems"(2) True arr
    have "simon_says_loop (i + 1) (g\<lparr>state := PLAYER_SAYS\<rparr>) ?w = Done g' w'"
      by (subst (asm) simon_says_loop.simps) simp
    from "1.IH" [OF True arr w1(1) this] since show ?thesis
      by (auto intro: single_led_since_trans)
  qed
qed

lemma running_inner_leds:
  "gpioa_odr w = 0 \<Longrightarrow> running_inner i w = Done u w' \<Longrightarrow>
     gpioa_odr w' = 0 \<and> single_led_since w w'"
proof (induction i w rule: running_inner.induct)
  case (1 i w)
  show ?case
  proof (cases "i < LED_COUNT")
    case False
    with "1.prems" show ?thesis
      by (subst (asm) running_inner.simps) (auto simp: single_led_since_same)
  next
    case True
    then have arr: "array_get led_pins i = Some (led_pins ! i)"
      by (simp add: array_get_def led_pins_def LED_COUNT_def)
    note led = led_on_off [OF True]
    let ?w = "HAL_GPIO_WritePin GPIOA (led_pins ! i) GPIO_PIN_RESET
                (HAL_Delay WIN_ANIMATION_MS
                   (HAL_GPIO_WritePin GPIOA (led_pins ! i) GPIO_PIN_SET w))"
    have w1: "gpioa_odr ?w = 0" "odr_hist ?w = odr_hist w @ [0 OR led_pins ! i, 0]"
      using "1.prems"(1) led(2) by simp_all
    then have since: "single_led_since w ?w"
      using led(1,3) by (simp add: single_led_since_iff)
    from "1.prems"(2) True arr have "running_inner (i + 1) ?w = Done u w'"
      by (subst (asm) running_inner.simps) simp
    from "1.IH" [OF True arr w1(1) this] since show ?thesis
      by (auto intro: single_led_since_trans)
  qed
qed

lemma running_outer_leds:
  "gpioa_odr w = 0 \<Longrightarrow> running_outer j w = Done u w' \<Longrightarrow>
     gpioa_odr w' = 0 \<and> single_led_since w w'"
proof (induction j w rule: running_outer.induct)
  case (1 j w)
  show ?case
  proof (cases "j < 4")
    case False
    with "1.prems" show ?thesis
      by (subst (asm) running_outer.simps) (auto simp: single_led_since_same)
  next
    case True
    from running_inner_Done [of 0 w] obtain w1 where inner: "running_inner 0 w = Done () w1"
      by auto
    from running_inner_leds [OF "1.prems"(1) inner]
    have w1: "gpioa_odr w1 = 0" "single_led_since w w1" by simp_all
    from "1.prems"(2) True inner have "running_outer (j + 1) w1 = Done u w'"
      by (subst (asm) running_outer.simps) simp
    from "1.IH" [OF True inner w1(1) this] w1(2) show ?thesis
      by (auto intro: single_led_since_trans)
  qed
qed

lemma ToggleLEDsForGameOver_unfold:
  "ToggleLEDsForGameOver w =
     HAL_Delay ERROR_BLINK_MS (HAL_GPIO_TogglePin GPIOA all_leds
       (HAL_Delay ERROR_BLINK_MS (HAL_GPIO_TogglePin GPIOA all_leds
          (HAL_Delay ERROR_BLINK_MS (HAL_GPIO_TogglePin GPIOA all_leds
             (HAL_Delay ERROR_BLINK_MS (HAL_GPIO_TogglePin GPIOA all_leds w)))))))"
proof -
  have one: "i < 4 \<Longrightarrow> toggle_loop i w =
      toggle_loop (Suc i) (HAL_Delay ERROR_BLINK_MS (HAL_GPIO_TogglePin GPIOA all_leds w))"
    for i w
    by (subst toggle_loop.simps) (simp add: all_leds_def)
  have stop: "toggle_loop (Suc (Suc (Suc (Suc 0)))) w = w" for w
    by (subst toggle_loop.simps) simp
  show ?thesis
    unfolding ToggleLEDsForGameOver_def
    by (simp add: one stop del: One_nat_def)
qed

lemma ToggleLEDsForGameOver_leds:
  "gpioa_odr w = 0 \<Longrightarrow>
     gpioa_odr (ToggleLEDsForGameOver w) = 0 \<and>
     odr_hist (ToggleLEDsForGameOver w) = odr_hist w @ [all_leds, 0, all_leds, 0]"
  by (simp add: ToggleLEDsForGameOver_unfold)

lemma step_leds:
  assumes "gpioa_odr w = 0" "state g \<noteq> GAME_OVER"
  shows "(step eng g w = Done g' w' \<longrightarrow> gpioa_odr w' = 0 \<and> single_led_since w w') \<and>
         (step eng g w = Waiting w' \<longrightarrow> single_led_since w w')"
proof (cases "state g")
  case IDLE
  with assms(1) show ?thesis
    by (auto simp: step_IDLE single_led_since_same split: list.splits)
next
  case SIMON_SAYS
  have "gpioa_odr w' = 0 \<and> single_led_since w w'" if st: "step eng g w = Done g' w'"
  proof -
    from st SIMON_SAYS obtain g1 where "simon_says_loop 0 g1 w = Done g' w'"
      by (auto simp: step_def case_prod_beta split: option.splits)
    from simon_says_loop_leds [OF assms(1) this] show ?thesis .
  qed
  moreover have "step eng g w \<noteq> Waiting w'"
  proof
    assume st: "step eng g w = Waiting w'"
    with SIMON_SAYS obtain g1 where loop: "simon_says_loop 0 g1 w = Waiting w'"
      by (auto simp: step_def case_prod_beta split: option.splits)
    have "simon_says_loop i h v \<noteq> Waiting w'" for i h v
    proof (induction i h v rule: simon_says_loop.induct)
      case (1 i h v)
      show ?case
      proof (cases "i \<le> current_level h")
        case False
        then show ?thesis by (subst simon_says_loop.simps) simp
      next
        case True
        show ?thesis
        proof (cases "array_get (sequence h) i")
          case None
          with True show ?thesis by (subst simon_says_loop.simps) simp
        next
          case (Some s)
          show ?thesis
          proof (cases "array_get led_pins s")
            case None
            with True Some show ?thesis by (subst simon_says_loop.simps) simp
          next
            case led: (Some led)
            from "1.IH" [OF True Some led] True Some led show ?thesis
              by (subst simon_says_loop.simps) simp
          qed
        qed
      qed
    qed
    with loop show False by blast
  qed
  ultimately show ?thesis by blast
next
  case PLAYER_SAYS
  show ?thesis
  proof (cases "player_says_loop 0 g w")
    case (Done g1 w1)
    from player_says_loop_leds [OF assms(1), of 0 g g1 w1] Done
    have "gpioa_odr w1 = 0" "single_led_since w w1" by simp_all
    with PLAYER_SAYS Done show ?thesis
      by (auto simp: step_def split: if_splits)
  next
    case (Waiting w1)
    from player_says_loop_leds [OF assms(1), of 0 g _ w1] Waiting
    have "single_led_since w w1" by simp
    with PLAYER_SAYS Waiting show ?thesis by (auto simp: step_def)
  next
    case Fault
    with PLAYER_SAYS show ?thesis by (auto simp: step_def)
  qed
next
  case GAME_OVER
  with assms(2) show ?thesis by simp
next
  case WIN
  from step_WIN [OF WIN, of w eng] obtain w1 where
    w1: "RunningLightForWin w = Done () w1" "step eng g w = Done (g\<lparr>state := IDLE\<rparr>) w1"
    by blast
  from running_outer_leds [OF assms(1), of 0 "()" w1] w1(1)
  have "gpioa_odr w1 = 0 \<and> single_led_since w w1" by (simp add: RunningLightForWin_def)
  with w1(2) show ?thesis by auto
qed

lemma step_leds_off:
  assumes "gpioa_odr w = 0" "step eng g w = Done g' w'"
  shows "gpioa_odr w' = 0"
proof (cases "state g = GAME_OVER")
  case True
  with assms ToggleLEDsForGameOver_leds [OF assms(1)] show ?thesis
    by (auto simp: step_GAME_OVER)
next
  case False
  from step_leds [OF assms(1) False, of eng g' w'] assms(2) show ?thesis by simp
qed

lemma run_leds_off:
  "gpioa_odr w = 0 \<Longrightarrow> run eng n g w = Done g' w' \<Longrightarrow> gpioa_odr w' = 0"
proof (induction n arbitrary: g w)
  case 0
  then show ?case by simp
next
  case (Suc n)
  from Suc.prems(2) obtain g1 w1 where st: "step eng g w = Done g1 w1"
    and rest: "run eng n g1 w1 = Done g' w'"
    by (auto split: outcome.splits)
  from step_leds_off [OF Suc.prems(1) st] have "gpioa_odr w1 = 0" .
  from Suc.IH [OF this rest] show ?case .
qed

text \<open>
  C6, the loss animation apart. Every handler is entered with all LEDs off. A pass
  through \<open>IDLE\<close>, \<open>SIMON_SAYS\<close>, \<open>PLAYER_SAYS\<close> or \<open>WIN\<close>, whether it returns
  or is still waiting when the samples end, only ever puts values with at most one LED
  on into the output register. A pass through \<open>GAME_OVER\<close> puts all four LEDs on
  together, twice, and leaves them off.
\<close>

theorem one_led_outside_game_over:
  "(run eng n main_init (init_world ss) = Done g w \<and> state g \<noteq> GAME_OVER \<and>
    (step eng g w = Done g' w' \<or> step eng g w = Waiting w') \<longrightarrow>
      (\<exists>hist. odr_hist w' = odr_hist w @ hist \<and> (\<forall>v\<in>set hist. at_most_one_led v))) \<and>
   (run eng n main_init (init_world ss) = Done g w \<and> state g = GAME_OVER \<longrightarrow>
      (\<exists>w'. step eng g w = Done (g\<lparr>state := IDLE\<rparr>) w' \<and>
         odr_hist w' = odr_hist w @ [all_leds, 0, all_leds, 0] \<and> leds_lit all_leds = 4)) \<and>
   (run eng n main_init (init_world ss) = Done g w \<longrightarrow> gpioa_odr w = 0)"
proof (intro conjI impI)
  assume a: "run eng n main_init (init_world ss) = Done g w \<and> state g \<noteq> GAME_OVER \<and>
    (step eng g w = Done g' w' \<or> step eng g w = Waiting w')"
  then have "gpioa_odr w = 0"
    using run_leds_off [of "init_world ss" eng n main_init g w] by (simp add: init_world_def)
  from step_leds [OF this, of g eng g' w'] a have "single_led_since w w'" by blast
  then show "\<exists>hist. odr_hist w' = odr_hist w @ hist \<and> (\<forall>v\<in>set hist. at_most_one_led v)"
    by (simp add: single_led_since_iff list_all_iff)
next
  assume a: "run eng n main_init (init_world ss) = Done g w \<and> state g = GAME_OVER"
  then have "gpioa_odr w = 0"
    using run_leds_off [of "init_world ss" eng n main_init g w] by (simp add: init_world_def)
  from ToggleLEDsForGameOver_leds [OF this] a
  have "step eng g w = Done (g\<lparr>state := IDLE\<rparr>) (ToggleLEDsForGameOver w) \<and>
    odr_hist (ToggleLEDsForGameOver w) = odr_hist w @ [all_leds, 0, all_leds, 0]"
    by (simp add: step_GAME_OVER)
  moreover have "leds_lit all_leds = 4"
    by (simp add: leds_lit_def all_leds_def led_pins_def GPIO_PIN_3_def GPIO_PIN_4_def
        GPIO_PIN_5_def GPIO_PIN_6_def)
  ultimately show "\<exists>w'. step eng g w = Done (g\<lparr>state := IDLE\<rparr>) w' \<and>
         odr_hist w' = odr_hist w @ [all_leds, 0, all_leds, 0] \<and> leds_lit all_leds = 4"
    by blast
next
  assume "run eng n main_init (init_world ss) = Done g w"
  then show "gpioa_odr w = 0"
    using run_leds_off [of "init_world ss" eng n main_init g w] by (simp add: init_world_def)
qed

text \<open>A session lost at the first round: Start at tick 7, then a tap of button 0.\<close>

definition lost_session :: "sample list" where
  "lost_session = start_held 7 # tap 0"

text \<open>Every value the LED register has taken by the end of a run.\<close>

definition leds_seen :: "game outcome \<Rightarrow> u16 list" where
  "leds_seen r = (case r of Done g w \<Rightarrow> odr_hist w | Waiting w \<Rightarrow> odr_hist w | Fault \<Rightarrow> [])"

text \<open>
  Four passes of that session (start, demonstration of LED 2, the wrong tap, the loss
  animation): the register holds 0x78, all four LEDs, twice.
\<close>

theorem four_leds_in_game_over:
  "leds_seen (run scenario_engine 4 main_init (init_world lost_session)) =
     [0, 0x20, 0, 0x08, 0, 0x78, 0, 0x78, 0] \<and>
   leds_lit 0x78 = 4 \<and> \<not> at_most_one_led 0x78"
  by code_simp

theorem one_led_outside_game_over_witness:
  "\<exists>g w g' w' hist.
     run scenario_engine 2 main_init (init_world lost_session) = Done g w \<and>
     state g = PLAYER_SAYS \<and> step scenario_engine g w = Done g' w' \<and>
     state g' = GAME_OVER \<and> odr_hist w' = odr_hist w @ hist \<and> list_all at_most_one_led hist"
proof -
  have "case run scenario_engine 2 main_init (init_world lost_session) of
          Done g w \<Rightarrow> state g = PLAYER_SAYS \<and>
            (case step scenario_engine g w of
               Done g' w' \<Rightarrow> state g' = GAME_OVER | _ \<Rightarrow> False)
        | _ \<Rightarrow> False"
    by code_simp
  then obtain g w g' w' where
    r: "run scenario_engine 2 main_init (init_world lost_session) = Done g w"
      "state g = PLAYER_SAYS" "step scenario_engine g w = Done g' w'" "state g' = GAME_OVER"
    by (auto split: outcome.splits)
  from one_led_outside_game_over [of scenario_engine 2 lost_session g w g' w',
      THEN conjunct1, rule_format] r
  obtain hist where "odr_hist w' = odr_hist w @ hist" "\<forall>v\<in>set hist. at_most_one_led v"
    by auto
  with r show ?thesis by (auto simp: list_all_iff)
qed

subsection \<open>The Start input\<close>

text \<open>
  \<open>start_variant s t\<close>: the sample \<open>t\<close> is \<open>s\<close> but for the input register of port A,
  the port of the Start pin. \<open>same_but_start w v\<close>: the worlds \<open>w\<close> and \<open>v\<close> differ
  at most so in the samples still to be read. \<open>same_outcome\<close>: two results are of
  the same kind, with the same value and worlds that differ at most so.
\<close>

definition start_variant :: "sample \<Rightarrow> sample \<Rightarrow> bool" where
  "start_variant s t = (uptime t = uptime s \<and> gpiob_idr t = gpiob_idr s)"

definition same_but_start :: "world \<Rightarrow> world \<Rightarrow> bool" where
  "same_but_start w v =
     (list_all2 start_variant (inputs w) (inputs v) \<and> now v = now w \<and>
      gpioa_odr v = gpioa_odr w \<and> odr_hist v = odr_hist w \<and> events v = events w)"

fun same_outcome :: "'a outcome \<Rightarrow> 'a outcome \<Rightarrow> bool" where
  "same_outcome (Done x w) (Done y v) = (x = y \<and> same_but_start w v)"
| "same_outcome (Waiting w) (Waiting v) = same_but_start w v"
| "same_outcome Fault Fault = True"
| "same_outcome r r' = False"

lemma same_outcome_Done:
  "same_outcome (Done x w) r \<longleftrightarrow> (\<exists>v. r = Done x v \<and> same_but_start w v)"
  by (cases r) auto

lemma same_outcome_Waiting:
  "same_outcome (Waiting w) r \<longleftrightarrow> (\<exists>v. r = Waiting v \<and> same_but_start w v)"
  by (cases r) auto

lemma same_outcome_Fault: "same_outcome Fault r \<longleftrightarrow> r = Fault"
  by (cases r) auto

lemma same_but_start_writes:
  assumes "same_but_start w v"
  shows "same_but_start (HAL_Delay ms w) (HAL_Delay ms v)"
    "same_but_start (HAL_GPIO_WritePin port pin st w) (HAL_GPIO_WritePin port pin st v)"
    "same_but_start (HAL_GPIO_TogglePin port pin w) (HAL_GPIO_TogglePin port pin v)"
  using assms
  by (simp_all add: same_but_start_def HAL_Delay_def HAL_GPIO_WritePin_def
      HAL_GPIO_TogglePin_def set_odr_def)

lemma ReadPin_same:
  assumes "same_but_start w v"
  shows "same_outcome (HAL_GPIO_ReadPin GPIOB pin w) (HAL_GPIO_ReadPin GPIOB pin v)"
proof (cases "inputs w")
  case Nil
  with assms have "inputs v = []" by (simp add: same_but_start_def)
  with Nil assms show ?thesis by (simp add: HAL_GPIO_ReadPin_def)
next
  case (Cons s rest)
  with assms obtain t rest' where v: "inputs v = t # rest'" "start_variant s t"
    "list_all2 start_variant rest rest'"
    by (auto simp: same_but_start_def list_all2_Cons1)
  with Cons assms show ?thesis
    by (simp add: HAL_GPIO_ReadPin_def same_but_start_def after_read_def port_idr_def
        start_variant_def)
qed

lemma scan_buttons_same:
  "same_but_start w v \<Longrightarrow> same_outcome (scan_buttons i w) (scan_buttons i v)"
proof (induction i w arbitrary: v rule: scan_buttons.induct)
  case (1 i w)
  show ?case
  proof (cases "i < BUTTON_COUNT")
    case False
    with "1.prems" show ?thesis by (subst (1 2) scan_buttons.simps) simp
  next
    case True
    then have pin: "array_get button_pins i = Some (button_pins ! i)"
      by (simp add: array_get_def button_pins_def BUTTON_COUNT_def)
    note rd = ReadPin_same [OF "1.prems", of "button_pins ! i"]
    show ?thesis
    proof (cases "HAL_GPIO_ReadPin GPIOB (button_pins ! i) w")
      case (Done x w1)
      with rd obtain v1 where v1: "HAL_GPIO_ReadPin GPIOB (button_pins ! i) v = Done x v1"
        "same_but_start w1 v1"
        by (auto simp: same_outcome_Done)
      show ?thesis
      proof (cases "x = GPIO_PIN_RESET")
        case T: True
        with True pin Done v1 show ?thesis by (subst (1 2) scan_buttons.simps) simp
      next
        case F: False
        from "1.IH" [OF True pin Done F v1(2)] True pin Done v1(1) F show ?thesis
          by (subst (1 2) scan_buttons.simps) simp
      qed
    next
      case (Waiting w1)
      with rd obtain v1 where "HAL_GPIO_ReadPin GPIOB (button_pins ! i) v = Waiting v1"
        "same_but_start w1 v1"
        by (auto simp: same_outcome_Waiting)
      with True pin Waiting show ?thesis by (subst (1 2) scan_buttons.simps) simp
    next
      case Fault
      then show ?thesis by (simp add: ReadPin_not_Fault)
    qed
  qed
qed

lemma wait_release_same:
  "same_but_start w v \<Longrightarrow> same_outcome (wait_release pin w) (wait_release pin v)"
proof (induction pin w arbitrary: v rule: wait_release.induct)
  case (1 pin w)
  note rd = ReadPin_same [OF "1.prems", of pin]
  show ?case
  proof (cases "HAL_GPIO_ReadPin GPIOB pin w")
    case (Done x w1)
    with rd obtain v1 where v1: "HAL_GPIO_ReadPin GPIOB pin v = Done x v1"
      "same_but_start w1 v1"
      by (auto simp: same_outcome_Done)
    show ?thesis
    proof (cases "x = GPIO_PIN_RESET")
      case True
      from "1.IH" [OF Done True v1(2)] Done v1(1) True show ?thesis
        by (subst (1 2) wait_release.simps) simp
    next
      case False
      with Done v1 show ?thesis by (subst (1 2) wait_release.simps) simp
    qed
  next
    case (Waiting w1)
    with rd obtain v1 where "HAL_GPIO_ReadPin GPIOB pin v = Waiting v1" "same_but_start w1 v1"
      by (auto simp: same_outcome_Waiting)
    with Waiting show ?thesis by (subst (1 2) wait_release.simps) simp
  next
    case Fault
    then show ?thesis by (simp add: ReadPin_not_Fault)
  qed
qed

lemma await_input_same:
  "same_but_start w v \<Longrightarrow> same_outcome (await_input g i w) (await_input g i v)"
proof (induction g i w arbitrary: v rule: await_input.induct)
  case (1 g i w)
  from scan_buttons_same [OF "1.prems", of 0]
  have scan: "same_outcome (GetPressedButtonIndex w) (GetPressedButtonIndex v)"
    by (simp add: GetPressedButtonIndex_def)
  show ?case
  proof (cases "GetPressedButtonIndex w")
    case (Done index w1)
    with scan obtain v1 where v1: "GetPressedButtonIndex v = Done index v1"
      "same_but_start w1 v1"
      by (auto simp: same_outcome_Done)
    show ?thesis
    proof (cases "0 \<le> index")
      case True
      let ?led = "led_pins ! nat index"
      let ?won = "HAL_Delay GAME_SPEED_MS (HAL_GPIO_WritePin GPIOA ?led GPIO_PIN_SET w1)"
      let ?von = "HAL_Delay GAME_SPEED_MS (HAL_GPIO_WritePin GPIOA ?led GPIO_PIN_SET v1)"
      have "same_but_start ?won ?von"
        using v1(2) by (intro same_but_start_writes)
      note wr = wait_release_same [OF this, of "button_pins ! nat index"]
      show ?thesis
      proof (cases "wait_release (button_pins ! nat index) ?won")
        case wd: (Done u w2)
        with wr obtain v2 where v2: "wait_release (button_pins ! nat index) ?von = Done u v2"
          "same_but_start w2 v2"
          by (auto simp: same_outcome_Done)
        have "same_but_start
                (HAL_Delay GAME_SPEED_MS (HAL_GPIO_WritePin GPIOA ?led GPIO_PIN_RESET w2))
                (HAL_Delay GAME_SPEED_MS (HAL_GPIO_WritePin GPIOA ?led GPIO_PIN_RESET v2))"
          using v2(2) by (intro same_but_start_writes)
        then show ?thesis
          unfolding await_input_pressed [OF Done True] await_input_pressed [OF v1(1) True]
            wd v2(1)
          by (simp split: option.splits)
      next
        case ww: (Waiting w2)
        with wr obtain v2 where "wait_release (button_pins ! nat index) ?von = Waiting v2"
          "same_but_start w2 v2"
          by (auto simp: same_outcome_Waiting)
        with ww show ?thesis
          unfolding await_input_pressed [OF Done True] await_input_pressed [OF v1(1) True]
          by simp
      next
        case Fault
        then show ?thesis by (simp add: wait_release_not_Fault)
      qed
    next
      case False
      then have neg: "index < 0" by simp
      from "1.IH" [OF Done False v1(2)] show ?thesis
        unfolding await_input_none [OF Done neg] await_input_none [OF v1(1) neg] .
    qed
  next
    case (Waiting w1)
    with scan obtain v1 where v1: "GetPressedButtonIndex v = Waiting v1" "same_but_start w1 v1"
      by (auto simp: same_outcome_Waiting)
    then show ?thesis
      unfolding await_input_starved [OF Waiting] await_input_starved [OF v1(1)] by simp
  next
    case Fault
    then show ?thesis by (simp add: GetPressedButtonIndex_not_Fault)
  qed
qed

lemma player_says_loop_same:
  "same_but_start w v \<Longrightarrow> same_outcome (player_says_loop i g w) (player_says_loop i g v)"
proof (induction i g w arbitrary: v rule: player_says_loop.induct)
  case (1 i g w)
  show ?case
  proof (cases "i \<le> current_level g")
    case False
    with "1.prems" show ?thesis by (subst (1 2) player_says_loop.simps) simp
  next
    case True
    note aw = await_input_same [OF "1.prems", of g i]
    show ?thesis
    proof (cases "await_input g i w")
      case (Done g1 w1)
      with aw obtain v1 where v1: "await_input g i v = Done g1 v1" "same_but_start w1 v1"
        by (auto simp: same_outcome_Done)
      show ?thesis
      proof (cases "state g1 \<noteq> PLAYER_SAYS")
        case T: True
        with True Done v1 show ?thesis by (subst (1 2) player_says_loop.simps) simp
      next
        case F: False
        from "1.IH" [OF True Done F v1(2)] True Done v1(1) F show ?thesis
          by (subst (1 2) player_says_loop.simps) simp
      qed
    next
      case (Waiting w1)
      with aw obtain v1 where "await_input g i v = Waiting v1" "same_but_start w1 v1"
        by (auto simp: same_outcome_Waiting)
      with True Waiting show ?thesis by (subst (1 2) player_says_loop.simps) simp
    next
      case Fault
      with aw have "await_input g i v = Fault" by (simp add: same_outcome_Fault)
      with True Fault show ?thesis by (subst (1 2) player_says_loop.simps) simp
    qed
  qed
qed

lemma simon_says_loop_same:
  "same_but_start w v \<Longrightarrow> same_outcome (simon_says_loop i g w) (simon_says_loop i g v)"
proof (induction i g w arbitrary: v rule: simon_says_loop.induct)
  case (1 i g w)
  show ?case
  proof (cases "i \<le> current_level g")
    case False
    with "1.prems" show ?thesis by (subst (1 2) simon_says_loop.simps) simp
  next
    case True
    show ?thesis
    proof (cases "array_get (sequence g) i")
      case None
      with True show ?thesis by (subst (1 2) simon_says_loop.simps) simp
    next
      case (Some s)
      show ?thesis
      proof (cases "array_get led_pins s")
        case None
        with True Some show ?thesis by (subst (1 2) simon_says_loop.simps) simp
      next
        case led: (Some led)
        have "same_but_start
                (HAL_Delay GAME_SPEED_MS (HAL_GPIO_WritePin GPIOA led GPIO_PIN_RESET
                   (HAL_Delay GAME_SPEED_MS (HAL_GPIO_WritePin GPIOA led GPIO_PIN_SET w))))
                (HAL_Delay GAME_SPEED_MS (HAL_GPIO_WritePin GPIOA led GPIO_PIN_RESET
                   (HAL_Delay GAME_SPEED_MS (HAL_GPIO_WritePin GPIOA led GPIO_PIN_SET v))))"
          using "1.prems" by (intro same_but_start_writes)
        from "1.IH" [OF True Some led this] True Some led show ?thesis
          by (subst (1 2) simon_says_loop.simps) simp
      qed
    qed
  qed
qed

lemma running_inner_same:
  "same_but_start w v \<Longrightarrow> same_outcome (running_inner i w) (running_inner i v)"
proof (induction i w arbitrary: v rule: running_inner.induct)
  case (1 i w)
  show ?case
  proof (cases "i < LED_COUNT")
    case False
    with "1.prems" show ?thesis by (subst (1 2) running_inner.simps) simp
  next
    case True
    then have arr: "array_get led_pins i = Some (led_pins ! i)"
      by (simp add: array_get_def led_pins_def LED_COUNT_def)
    have "same_but_start
            (HAL_GPIO_WritePin GPIOA (led_pins ! i) GPIO_PIN_RESET
               (HAL_Delay WIN_ANIMATION_MS
                  (HAL_GPIO_WritePin GPIOA (led_pins ! i) GPIO_PIN_SET w)))
            (HAL_GPIO_WritePin GPIOA (led_pins ! i) GPIO_PIN_RESET
               (HAL_Delay WIN_ANIMATION_MS
                  (HAL_GPIO_WritePin GPIOA (led_pins ! i) GPIO_PIN_SET v)))"
      using "1.prems" by (intro same_but_start_writes)
    from "1.IH" [OF True arr this] True arr show ?thesis
      by (subst (1 2) running_inner.simps) simp
  qed
qed

lemma running_outer_same:
  "same_but_start w v \<Longrightarrow> same_outcome (running_outer j w) (running_outer j v)"
proof (induction j w arbitrary: v rule: running_outer.induct)
  case (1 j w)
  show ?case
  proof (cases "j < 4")
    case False
    with "1.prems" show ?thesis by (subst (1 2) running_outer.simps) simp
  next
    case True
    from running_inner_Done [of 0 w] obtain w1 where inner: "running_inner 0 w = Done () w1"
      by auto
    with running_inner_same [OF "1.prems", of 0] obtain v1 where
      v1: "running_inner 0 v = Done () v1" "same_but_start w1 v1"
      by (auto simp: same_outcome_Done)
    from "1.IH" [OF True inner v1(2)] True inner v1(1) show ?thesis
      by (subst (1 2) running_outer.simps) simp
  qed
qed

lemma toggle_loop_same:
  "same_but_start w v \<Longrightarrow> same_but_start (toggle_loop i w) (toggle_loop i v)"
proof (induction i w arbitrary: v rule: toggle_loop.induct)
  case (1 i w)
  show ?case
  proof (cases "i < 4")
    case False
    with "1.prems" show ?thesis by (subst (1 2) toggle_loop.simps) simp
  next
    case True
    let ?m = "led_pins ! 0 OR led_pins ! 1 OR led_pins ! 2 OR led_pins ! 3"
    have "same_but_start (HAL_Delay ERROR_BLINK_MS (HAL_GPIO_TogglePin GPIOA ?m w))
            (HAL_Delay ERROR_BLINK_MS (HAL_GPIO_TogglePin GPIOA ?m v))"
      using "1.prems" by (intro same_but_start_writes)
    from "1.IH" [OF True this] True show ?thesis
      by (subst (1 2) toggle_loop.simps) simp
  qed
qed

lemma step_same:
  assumes "state g \<noteq> IDLE" "same_but_start w v"
  shows "same_outcome (step eng g w) (step eng g v)"
proof (cases "state g")
  case IDLE
  with assms(1) show ?thesis by simp
next
  case SIMON_SAYS
  then show ?thesis
    using simon_says_loop_same [OF assms(2)]
    by (simp add: step_def case_prod_beta split: option.splits)
next
  case PLAYER_SAYS
  note loop = player_says_loop_same [OF assms(2), of 0 g]
  show ?thesis
  proof (cases "player_says_loop 0 g w")
    case (Done g1 w1)
    with loop obtain v1 where "player_says_loop 0 g v = Done g1 v1" "same_but_start w1 v1"
      by (auto simp: same_outcome_Done)
    with PLAYER_SAYS Done show ?thesis by (simp add: step_def)
  next
    case (Waiting w1)
    with loop obtain v1 where "player_says_loop 0 g v = Waiting v1" "same_but_start w1 v1"
      by (auto simp: same_outcome_Waiting)
    with PLAYER_SAYS Waiting show ?thesis by (simp add: step_def)
  next
    case Fault
    with loop have "player_says_loop 0 g v = Fault" by (simp add: same_outcome_Fault)
    with PLAYER_SAYS Fault show ?thesis by (simp add: step_def)
  qed
next
  case GAME_OVER
  then show ?thesis
    using toggle_loop_same [OF assms(2), of 0]
    by (simp add: step_GAME_OVER ToggleLEDsForGameOver_def)
next
  case WIN
  from step_WIN [OF WIN, of w eng] obtain w1 where
    w1: "RunningLightForWin w = Done () w1" "step eng g w = Done (g\<lparr>state := IDLE\<rparr>) w1"
    by blast
  from step_WIN [OF WIN, of v eng] obtain v1 where
    v1: "RunningLightForWin v = Done () v1" "step eng g v = Done (g\<lparr>state := IDLE\<rparr>) v1"
    by blast
  from running_outer_same [OF assms(2), of 0] w1(1) v1(1) have "same_but_start w1 v1"
    by (simp add: RunningLightForWin_def)
  with w1(2) v1(2) show ?thesis by simp
qed

text \<open>
  C8. Outside \<open>IDLE\<close> a pass does not depend on the Start pin: over two worlds that
  differ only in what port A's input register shows in the samples to come, a pass
  from \<open>SIMON_SAYS\<close>, \<open>PLAYER_SAYS\<close>, \<open>GAME_OVER\<close> or \<open>WIN\<close> gives the same result,
  that is the same game (state, \<open>current_level\<close>, \<open>sequence\<close>, generator), the same
  log and the same LED history.
\<close>

theorem start_ignored_outside_idle:
  assumes "state g \<noteq> IDLE" "same_but_start w v"
  shows "same_outcome (step eng g w) (step eng g v) \<and>
         (step eng g w = Done g' w' \<longrightarrow>
            (\<exists>v'. step eng g v = Done g' v' \<and> events v' = events w' \<and>
                   odr_hist v' = odr_hist w'))"
proof
  from step_same [OF assms] show same: "same_outcome (step eng g w) (step eng g v)" .
  show "step eng g w = Done g' w' \<longrightarrow>
          (\<exists>v'. step eng g v = Done g' v' \<and> events v' = events w' \<and> odr_hist v' = odr_hist w')"
  proof
    assume "step eng g w = Done g' w'"
    with same obtain v' where "step eng g v = Done g' v'" "same_but_start w' v'"
      by (auto simp: same_outcome_Done)
    then show "\<exists>v'. step eng g v = Done g' v' \<and> events v' = events w' \<and>
      odr_hist v' = odr_hist w'"
      by (auto simp: same_but_start_def)
  qed
qed

text \<open>The same samples with the Start pin held low in every one of them.\<close>

definition with_start_held :: "sample list \<Rightarrow> sample list" where
  "with_start_held ss = map (\<lambda>s. s\<lparr>gpioa_idr := 0xFFFE\<rparr>) ss"

theorem start_ignored_outside_idle_witness:
  "state (round_game 0) \<noteq> IDLE \<and>
   same_but_start (init_world (tap 2)) (init_world (with_start_held (tap 2))) \<and>
   (\<exists>g' w' v'. step scenario_engine (round_game 0) (init_world (tap 2)) = Done g' w' \<and>
      step scenario_engine (round_game 0) (init_world (with_start_held (tap 2))) = Done g' v' \<and>
      state g' = SIMON_SAYS \<and> events v' = events w')"
proof -
  let ?w = "init_world (tap 2)"
  let ?v = "init_world (with_start_held (tap 2))"
  have h1: "state (round_game 0) \<noteq> IDLE" by (simp add: round_game_def)
  have h2: "same_but_start ?w ?v" by code_simp
  have "case step scenario_engine (round_game 0) ?w of
          Done g' w' \<Rightarrow> state g' = SIMON_SAYS | _ \<Rightarrow> False"
    by code_simp
  then obtain g' w' where st: "step scenario_engine (round_game 0) ?w = Done g' w'"
    "state g' = SIMON_SAYS"
    by (auto split: outcome.splits)
  from start_ignored_outside_idle [OF h1 h2, of scenario_engine g' w'] st
  obtain v' where "step scenario_engine (round_game 0) ?v = Done g' v'"
    "events v' = events w'"
    by blast
  with h1 h2 st show ?thesis by blast
qed

end
